theory Spec2Isabelle
  imports Complex_Main "HOL-Library.Word"
begin

unbundle bit_operations_syntax

section \<open>types.h: constants and data\<close>

text \<open>
  \<^verbatim>\<open>#define STORE_SIZE (1024*1024)\<close>, \<^verbatim>\<open>#define MAX_BUCKETS 128\<close>,
  \<^verbatim>\<open>#define ALIGN_DIMS(d) (((d) + 3) & ~3)\<close> and
  \<^verbatim>\<open>#define SVEC_SIZE(d) (STORE_SIZE / ((d) * sizeof(float32_t)))\<close>.
  In \<open>SVEC_SIZE\<close> the divisor has type \<open>size_t\<close>, so the product is taken modulo
  \<open>2 ^ 64\<close> and the division is unsigned; a zero divisor is undefined behaviour and is a
  branch of \<open>victor_table\<close> below.
\<close>

definition STORE_SIZE :: nat where
  "STORE_SIZE = 1024 * 1024"

definition MAX_BUCKETS :: nat where
  "MAX_BUCKETS = 128"

definition ALIGN_DIMS :: "int \<Rightarrow> int" where
  "ALIGN_DIMS d = (d + 3) AND NOT 3"

definition SVEC_SIZE :: "int \<Rightarrow> nat" where
  "SVEC_SIZE d = STORE_SIZE div nat ((d * 4) mod 2 ^ 64)"

definition L2NORM :: int where
  "L2NORM = 1"

definition COSINE :: int where
  "COSINE = 2"

text \<open>
  \<open>struct bucket\<close>. The slab \<open>store\<close> is reached only through the slot pointers
  \<open>svec[i] = store + i * dims_aligned\<close>, which never overlap, so a slot is modelled by what
  its pointer gives: \<open>None\<close> for \<open>NULL\<close>, \<open>Some v\<close> for a pointer to the
  \<open>dims_aligned\<close> floats \<open>v\<close>. The field \<open>index\<close> is the count of slots handed out.
\<close>

record 'a bucket =
  index :: nat
  svec :: "'a list option list"

text \<open>
  \<open>match_result_t\<close>: the field \<open>id\<close> is named \<open>mid\<close> here (\<open>id\<close> is the identity
  function of HOL).
\<close>

record 's match_result_t =
  mid :: int
  distance :: "'s"

text \<open>
  \<open>struct table\<close>, without the lock. \<open>float32_t\<close> is kept abstract: \<open>'a\<close> for the
  components of a vector, \<open>'s\<close> for a score. The two function pointers are fields, as in
  the source; \<open>buckets\<close> has \<open>MAX_BUCKETS\<close> entries, \<open>None\<close> for \<open>NULL\<close>. The
  field \<open>index\<close> of the table is written \<open>table.index\<close>, that of a bucket
  \<open>bucket.index\<close>.
\<close>

record ('a, 's) table =
  dims :: int
  dims_aligned :: int
  svec_size :: nat
  cmpmode :: int
  worst_match_value :: "'s"
  index :: nat
  is_better_match :: "'s \<Rightarrow> 's \<Rightarrow> bool"
  compare_vectors :: "'a list \<Rightarrow> 'a list \<Rightarrow> int \<Rightarrow> 's"
  buckets :: "'a bucket option list"

section \<open>victor.c: the identifier codec\<close>

text \<open>
  \<^verbatim>\<open>static inline int32_t encode_vector_id(int8_t bucket, uint32_t slot) {
    return ((int32_t)bucket << 24) | (slot & 0x00FFFFFF); }\<close>
\<close>

definition encode_vector_id :: "8 word \<Rightarrow> 32 word \<Rightarrow> 32 word" where
  "encode_vector_id bucket slot = push_bit 24 (scast bucket) OR (slot AND 0x00FFFFFF)"

text \<open>
  The decoding in \<open>delete_vector\<close>:
  \<^verbatim>\<open>int ib = (int8_t)(id >> 24); int iv = id & 0x00FFFFFF;\<close>
  The shift of the signed \<open>id\<close> is arithmetic; the cast keeps the low eight bits.
\<close>

definition decode_ib :: "32 word \<Rightarrow> int" where
  "decode_ib ident = sint (ucast (signed_drop_bit 24 ident) :: 8 word)"

definition decode_iv :: "32 word \<Rightarrow> int" where
  "decode_iv ident = sint (ident AND 0x00FFFFFF)"

section \<open>math.c: the similarity kernels\<close>

text \<open>
  Modelled from the spec: \<open>float32_t\<close> scores. The file \<open>math.c\<close> with the kernels is not
  among the sources, so scores are exact reals together with the value \<open>INFINITY\<close>;
  rounding and NaN are not modelled.
\<close>

datatype score = Finite real | Infinity

text \<open>Modelled from the spec: the order \<open>x < y\<close> on scores, \<open>INFINITY\<close> above every real.\<close>

fun score_less :: "score \<Rightarrow> score \<Rightarrow> bool" where
  "score_less (Finite x) (Finite y) = (x < y)"
| "score_less (Finite x) Infinity = True"
| "score_less Infinity y = False"

text \<open>
  Modelled from the spec: \<open>euclidean_distance\<close> of \<open>math.c\<close>, section 4.1:
  \<open>compare(a, b, D') = \<Sum> (a[i] - b[i])\<^sup>2\<close>, reading exactly \<open>D'\<close> elements of each operand.
\<close>

definition euclidean_distance :: "real list \<Rightarrow> real list \<Rightarrow> int \<Rightarrow> score" where
  "euclidean_distance a b n = Finite (\<Sum>i\<leftarrow>[0..<nat n]. (a ! i - b ! i)\<^sup>2)"

text \<open>
  Modelled from the spec: \<open>euclidean_distance_best\<close> of \<open>math.c\<close>: lower is better,
  \<open>is_better(x, y) \<equiv> x < y\<close>.
\<close>

definition euclidean_distance_best :: "score \<Rightarrow> score \<Rightarrow> bool" where
  "euclidean_distance_best x y = score_less x y"

text \<open>
  Modelled from the spec: \<open>cosine_similarity\<close> of \<open>math.c\<close>:
  \<open>compare(a, b, D') = (\<Sum> a[i] b[i]) / (\<parallel>a\<parallel> \<cdot> \<parallel>b\<parallel>)\<close>, and the worst value \<open>-1\<close> when either
  operand has zero norm.
\<close>

definition cosine_similarity :: "real list \<Rightarrow> real list \<Rightarrow> int \<Rightarrow> score" where
  "cosine_similarity a b n =
     (let dot = (\<Sum>i\<leftarrow>[0..<nat n]. a ! i * b ! i);
          norm_a = sqrt (\<Sum>i\<leftarrow>[0..<nat n]. (a ! i)\<^sup>2);
          norm_b = sqrt (\<Sum>i\<leftarrow>[0..<nat n]. (b ! i)\<^sup>2)
      in if norm_a = 0 \<or> norm_b = 0 then Finite (- 1) else Finite (dot / (norm_a * norm_b)))"

text \<open>
  Modelled from the spec: \<open>cosine_similarity_best\<close> of \<open>math.c\<close>: higher is better,
  \<open>is_better(x, y) \<equiv> x > y\<close>.
\<close>

definition cosine_similarity_best :: "score \<Rightarrow> score \<Rightarrow> bool" where
  "cosine_similarity_best x y = score_less y x"

section \<open>victor.c: buckets and the table\<close>

text \<open>
  Undefined behaviour of the C program is a value: a division by zero, a store through a
  null pointer, an access past the end of an array, a signed overflow.
\<close>

datatype fault = DivByZero | NullDeref | OutOfBounds | SignedOverflow

text \<open>
  The three allocations of \<open>alloc_bucket\<close> (the bucket, its \<open>store\<close>, its \<open>svec\<close>) may
  each fail; the argument \<open>mem\<close> says which of them succeed. \<open>calloc\<close> zeroes the store, and
  every slot pointer is set to its region of the store. \<open>SVEC_SIZE\<close> is evaluated in the
  initialiser, before any test.
\<close>

definition alloc_bucket :: "bool \<times> bool \<times> bool \<Rightarrow> int \<Rightarrow> fault + ('a::zero) bucket option" where
  "alloc_bucket mem d_aligned =
     (case mem of (bucket_ok, store_ok, svec_ok) \<Rightarrow>
        if (d_aligned * 4) mod 2 ^ 64 = 0 then Inl DivByZero
        else let size = SVEC_SIZE d_aligned in
          if \<not> bucket_ok then Inr None
          else if \<not> store_ok then Inr None
          else if \<not> svec_ok then Inr None
          else Inr (Some \<lparr>bucket.index = 0,
                           svec = replicate size (Some (replicate (nat d_aligned) 0))\<rparr>))"

text \<open>
  \<open>victor_table\<close>: \<open>table_ok\<close> says whether the \<open>calloc\<close> of the table succeeds. The result
  \<open>Inr None\<close> is the return of \<open>NULL\<close>. \<open>dims\<close> is a 32-bit \<open>int\<close>, so \<open>dims + 3\<close> must not
  exceed \<open>INT_MAX\<close>.
\<close>

definition victor_table ::
  "bool \<Rightarrow> bool \<times> bool \<times> bool \<Rightarrow> int \<Rightarrow> int \<Rightarrow> fault + (real, score) table option" where
  "victor_table table_ok mem d mode =
     (if \<not> table_ok then Inr None
      else if 2 ^ 31 \<le> d + 3 then Inl SignedOverflow
      else if (ALIGN_DIMS d * 4) mod 2 ^ 64 = 0 then Inl DivByZero
      else if mode \<noteq> L2NORM \<and> mode \<noteq> COSINE then Inr None
      else
        (case alloc_bucket mem (ALIGN_DIMS d) of
           Inl f \<Rightarrow> Inl f
         | Inr None \<Rightarrow> Inr None
         | Inr (Some b) \<Rightarrow>
             Inr (Some \<lparr>dims = d, dims_aligned = ALIGN_DIMS d,
                        svec_size = SVEC_SIZE (ALIGN_DIMS d), cmpmode = mode,
                        worst_match_value = (if mode = L2NORM then Infinity else Finite (- 1)),
                        table.index = 0,
                        is_better_match =
                          (if mode = L2NORM then euclidean_distance_best
                           else cosine_similarity_best),
                        compare_vectors =
                          (if mode = L2NORM then euclidean_distance else cosine_similarity),
                        buckets = (replicate MAX_BUCKETS None)[0 := Some b]\<rparr>)))"

section \<open>victor.c: the scans\<close>

text \<open>
  Both scans run the same two nested iterations,
  \<^verbatim>\<open>for (i = 0; i <= table->index; i++) { b = table->buckets[i]; if (b == NULL) continue;
    for (j = 0; j < b->index; j++) { if (b->svec[j] == NULL) continue; ... } }\<close>
  with a different body; \<open>body i j v acc\<close> is the body at bucket \<open>i\<close>, slot \<open>j\<close>, where
  \<open>v\<close> is the vector \<open>b->svec[j]\<close> points to.
\<close>

definition scan_bucket ::
  "(nat \<Rightarrow> nat \<Rightarrow> 'a list \<Rightarrow> 'r \<Rightarrow> 'r) \<Rightarrow> nat \<Rightarrow> 'a bucket \<Rightarrow> 'r \<Rightarrow> 'r" where
  "scan_bucket body i b acc =
     fold (\<lambda>j acc. case svec b ! j of None \<Rightarrow> acc | Some v \<Rightarrow> body i j v acc)
       [0..<bucket.index b] acc"

definition scan_table ::
  "(nat \<Rightarrow> nat \<Rightarrow> 'a list \<Rightarrow> 'r \<Rightarrow> 'r) \<Rightarrow> ('a, 's) table \<Rightarrow> 'r \<Rightarrow> 'r" where
  "scan_table body t acc =
     fold (\<lambda>i acc. case buckets t ! i of None \<Rightarrow> acc | Some b \<Rightarrow> scan_bucket body i b acc)
       [0..<Suc (table.index t)] acc"

text \<open>The identifier \<open>encode_vector_id(i, j)\<close> of two \<open>int\<close> loop counters, read as an \<open>int\<close>.\<close>

definition slot_id :: "nat \<Rightarrow> nat \<Rightarrow> int" where
  "slot_id i j = sint (encode_vector_id (of_nat i) (of_nat j))"

text \<open>\<open>search_better_match\<close>: the top-1 scan.\<close>

definition search_better_match :: "('a, 's) table \<Rightarrow> 'a list \<Rightarrow> 's match_result_t" where
  "search_better_match t vector =
     scan_table
       (\<lambda>i j v result.
          let tmp = compare_vectors t v vector (dims_aligned t)
          in if is_better_match t tmp (distance result)
             then \<lparr>mid = slot_id i j, distance = tmp\<rparr>
             else result)
       t \<lparr>mid = - 1, distance = worst_match_value t\<rparr>"

text \<open>
  \<^verbatim>\<open>static void shift_right_mr(match_result_t *result, int len) {
    for (i = len-1; i > 0; i--) { result[i] = result[i-1]; } }\<close>
  The pointer \<open>result\<close> is \<open>&(*result)[k]\<close> at the call, so the array is passed with the
  offset \<open>base = k\<close>. \<open>shift_loop\<close> is the loop from a given \<open>i\<close>; it starts at \<open>len - 1\<close>,
  and for \<open>len = 0\<close> it does nothing, in C (\<open>i = -1\<close>) as with the truncated subtraction here.
\<close>

fun shift_loop :: "'s match_result_t list \<Rightarrow> nat \<Rightarrow> nat \<Rightarrow> 's match_result_t list" where
  "shift_loop result base 0 = result"
| "shift_loop result base (Suc i) =
     shift_loop (result[base + Suc i := result ! (base + i)]) base i"

definition shift_right_mr :: "'s match_result_t list \<Rightarrow> nat \<Rightarrow> nat \<Rightarrow> 's match_result_t list" where
  "shift_right_mr result base len = shift_loop result base (len - 1)"

text \<open>
  The loop over \<open>k\<close> of \<open>search_better_n_match\<close>, from a given \<open>k\<close>:
  \<^verbatim>\<open>for (k = 0; k < n; k++) {
    if (table->is_better_match(tmp, (*result)[k].distance)) {
      shift_right_mr(&(*result)[k], n-k-1);
      (*result)[k].distance = tmp; (*result)[k].id = encode_vector_id(i, j); break; } }\<close>
\<close>

function k_loop ::
  "('s \<Rightarrow> 's \<Rightarrow> bool) \<Rightarrow> 's \<Rightarrow> int \<Rightarrow> nat \<Rightarrow> nat \<Rightarrow> 's match_result_t list
    \<Rightarrow> 's match_result_t list" where
  "k_loop better tmp ident n k result =
     (if k < n then
        if better tmp (distance (result ! k))
        then (shift_right_mr result k (n - k - 1))[k := \<lparr>mid = ident, distance = tmp\<rparr>]
        else k_loop better tmp ident n (Suc k) result
      else result)"
  by pat_completeness auto
termination
  by (relation "measure (\<lambda>(better, tmp, ident, n, k, result). n - k)") auto

declare k_loop.simps [simp del]

text \<open>
  \<open>search_better_n_match\<close>: \<open>result_ok\<close> says whether the \<open>malloc\<close> of the result array
  succeeds; the pair is the returned \<open>int\<close> and the array left in \<open>*result\<close>.
\<close>

definition search_better_n_match ::
  "bool \<Rightarrow> ('a, 's) table \<Rightarrow> 'a list \<Rightarrow> int \<Rightarrow> int \<times> 's match_result_t list option" where
  "search_better_n_match result_ok t vector n =
     (if \<not> result_ok then (- 1, None)
      else (0, Some (scan_table
             (\<lambda>i j v result.
                let tmp = compare_vectors t v vector (dims_aligned t)
                in k_loop (is_better_match t) tmp (slot_id i j) (nat n) 0 result)
             t (replicate (nat n) \<lparr>mid = - 1, distance = worst_match_value t\<rparr>))))"

section \<open>victor.c: insert and delete\<close>

text \<open>
  The end of \<open>insert_vector\<close>, with \<open>b\<close> the bucket at \<open>table->index\<close>:
  \<^verbatim>\<open>memcpy(b->svec[b->index], vector, (table->dims * sizeof(float32_t)));
  memset(b->svec[b->index] + table->dims, 0, (table->dims_aligned - table->dims) * sizeof(float32_t));
  id = (int) encode_vector_id(table->index, b->index); b->index++; return id;\<close>
  Reading \<open>dims\<close> floats from a shorter \<open>vector\<close>, and writing through a slot pointer that
  is null or lies past the end of \<open>svec\<close>, are undefined.
\<close>

definition store_vector ::
  "('a::zero, 's) table \<Rightarrow> 'a bucket \<Rightarrow> 'a list \<Rightarrow> fault + (int \<times> ('a, 's) table)" where
  "store_vector t b vector =
     (if \<not> bucket.index b < length (svec b) then Inl OutOfBounds
      else case svec b ! bucket.index b of
        None \<Rightarrow> Inl NullDeref
      | Some old \<Rightarrow>
          if dims t < 0 \<or> length vector < nat (dims t) then Inl OutOfBounds
          else
            let slot = take (nat (dims t)) vector @ replicate (nat (dims_aligned t - dims t)) 0;
                b' = b\<lparr>svec := (svec b)[bucket.index b := Some slot],
                       bucket.index := bucket.index b + 1\<rparr>
            in Inr (slot_id (table.index t) (bucket.index b),
                    t\<lparr>buckets := (buckets t)[table.index t := Some b']\<rparr>))"

text \<open>\<open>insert_vector\<close>; \<open>mem\<close> is passed to \<open>alloc_bucket\<close>.\<close>

definition insert_vector ::
  "bool \<times> bool \<times> bool \<Rightarrow> ('a::zero, 's) table \<Rightarrow> 'a list \<Rightarrow> fault + (int \<times> ('a, 's) table)" where
  "insert_vector mem t vector =
     (case buckets t ! table.index t of
        None \<Rightarrow> Inl NullDeref
      | Some b \<Rightarrow>
          if bucket.index b \<ge> svec_size t then
            if table.index t + 1 < MAX_BUCKETS then
              (case alloc_bucket mem (dims_aligned t) of
                 Inl f \<Rightarrow> Inl f
               | Inr None \<Rightarrow> Inr (- 1, t)
               | Inr (Some b_new) \<Rightarrow>
                   store_vector
                     (t\<lparr>table.index := table.index t + 1,
                        buckets := (buckets t)[table.index t + 1 := Some b_new]\<rparr>)
                     b_new vector)
            else Inr (- 1, t)
          else store_vector t b vector)"

text \<open>
  \<open>delete_vector\<close>; the \<open>int\<close> argument is read as 32 bits. The zeroed memory of the slot
  is out of reach once its pointer is null.
\<close>

definition delete_vector :: "('a, 's) table \<Rightarrow> int \<Rightarrow> int \<times> ('a, 's) table" where
  "delete_vector t ident =
     (let ib = decode_ib (word_of_int ident); iv = decode_iv (word_of_int ident)
      in if ib \<ge> 0 \<and> ib < int MAX_BUCKETS \<and> buckets t ! nat ib \<noteq> None \<and> iv \<ge> 0
            \<and> iv < int (svec_size t) \<and> svec (the (buckets t ! nat ib)) ! nat iv \<noteq> None
         then
           let b = the (buckets t ! nat ib)
           in (0, t\<lparr>buckets := (buckets t)[nat ib := Some (b\<lparr>svec := (svec b)[nat iv := None]\<rparr>)]\<rparr>)
         else (0, t))"

section \<open>Sequences of calls\<close>

text \<open>
  A call of the interface. \<open>run t k ops\<close> makes the calls \<open>ops\<close> in order from the table
  \<open>t\<close> and counts in \<open>k\<close> the inserts that returned an identifier other than \<open>-1\<close>; it
  stops at the first undefined step. The two searches only read the table.
\<close>

datatype 'a call =
    Insert "bool \<times> bool \<times> bool" "'a list"
  | Delete int
  | Search "'a list"
  | SearchN bool "'a list" int

fun run :: "('a::zero, 's) table \<Rightarrow> nat \<Rightarrow> 'a call list \<Rightarrow> fault + (('a, 's) table \<times> nat)" where
  "run t k [] = Inr (t, k)"
| "run t k (Insert mem v # ops) =
     (case insert_vector mem t v of
        Inl f \<Rightarrow> Inl f
      | Inr (r, t') \<Rightarrow> run t' (if r = - 1 then k else Suc k) ops)"
| "run t k (Delete ident # ops) = run (snd (delete_vector t ident)) k ops"
| "run t k (Search q # ops) = run t k ops"
| "run t k (SearchN result_ok q n # ops) = run t k ops"

section \<open>Invariants and reference notions\<close>

text \<open>
  The invariants of section 3 of the specification, for a table on which \<open>k\<close> inserts
  have succeeded: the bucket array has \<open>MAX_BUCKETS\<close> entries, the buckets up to
  \<open>table.index\<close> exist and the later ones are null, every bucket before the current one is
  full, and \<open>k\<close> slots have been handed out in all. A bucket other than the first is
  written to as soon as it is allocated.
\<close>

definition table_inv :: "('a, 's) table \<Rightarrow> nat \<Rightarrow> bool" where
  "table_inv t k \<longleftrightarrow>
     length (buckets t) = MAX_BUCKETS \<and> table.index t < MAX_BUCKETS \<and>
     svec_size t = SVEC_SIZE (dims_aligned t) \<and> (dims_aligned t * 4) mod 2 ^ 64 \<noteq> 0 \<and>
     (\<forall>i\<le>table.index t. \<exists>b. buckets t ! i = Some b \<and> length (svec b) = svec_size t \<and>
         bucket.index b \<le> svec_size t \<and> (i < table.index t \<longrightarrow> bucket.index b = svec_size t)) \<and>
     (\<forall>i. table.index t < i \<longrightarrow> i < MAX_BUCKETS \<longrightarrow> buckets t ! i = None) \<and>
     (\<exists>b. buckets t ! table.index t = Some b \<and>
         k = table.index t * svec_size t + bucket.index b \<and>
         (0 < table.index t \<longrightarrow> 0 < bucket.index b))"

text \<open>No slot pointer of an allocated bucket is null: the state of a table without deletes.\<close>

definition no_null_slot :: "('a, 's) table \<Rightarrow> bool" where
  "no_null_slot t \<longleftrightarrow>
     (\<forall>i\<le>table.index t. \<forall>b. buckets t ! i = Some b \<longrightarrow> (\<forall>j<length (svec b). svec b ! j \<noteq> None))"

text \<open>
  The fields that no call writes after \<open>victor_table\<close>: the dimensions and the kernel chosen
  by the mode.
\<close>

definition table_conf :: "(real, score) table \<Rightarrow> bool" where
  "table_conf t \<longleftrightarrow>
     dims_aligned t = ALIGN_DIMS (dims t) \<and> dims t + 3 < 2 ^ 31 \<and>
     (cmpmode t = L2NORM \<or> cmpmode t = COSINE) \<and>
     worst_match_value t = (if cmpmode t = L2NORM then Infinity else Finite (- 1)) \<and>
     is_better_match t =
       (if cmpmode t = L2NORM then euclidean_distance_best else cosine_similarity_best) \<and>
     compare_vectors t = (if cmpmode t = L2NORM then euclidean_distance else cosine_similarity)"

definition same_conf :: "('a, 's) table \<Rightarrow> ('a, 's) table \<Rightarrow> bool" where
  "same_conf t t' \<longleftrightarrow>
     dims t' = dims t \<and> dims_aligned t' = dims_aligned t \<and> svec_size t' = svec_size t \<and>
     cmpmode t' = cmpmode t \<and> worst_match_value t' = worst_match_value t \<and>
     is_better_match t' = is_better_match t \<and> compare_vectors t' = compare_vectors t"

text \<open>
  Every bucket of \<open>t\<close> is still there in \<open>t'\<close>, with a count of handed-out slots that is
  not smaller.
\<close>

definition high_water_le :: "('a, 's) table \<Rightarrow> ('a, 's) table \<Rightarrow> bool" where
  "high_water_le t t' \<longleftrightarrow>
     (\<forall>i<MAX_BUCKETS. \<forall>b. buckets t ! i = Some b \<longrightarrow>
        (\<exists>b'. buckets t' ! i = Some b' \<and> bucket.index b \<le> bucket.index b'))"


text \<open>
  The live slots in the order the scans visit them: bucket, slot and stored vector. It is
  the scan itself, with the body that appends what it is given.
\<close>

definition live_slots :: "('a, 's) table \<Rightarrow> (nat \<times> nat \<times> 'a list) list" where
  "live_slots t = scan_table (\<lambda>i j v acc. acc @ [(i, j, v)]) t []"

text \<open>
  The live slots of one bucket among the slot indices \<open>js\<close>, and of the buckets \<open>is\<close> of a
  table, as lists; \<open>live_slots\<close> is shown below to be the second one over all buckets.
\<close>

definition slots_of_bucket :: "nat \<Rightarrow> 'a bucket \<Rightarrow> nat list \<Rightarrow> (nat \<times> nat \<times> 'a list) list" where
  "slots_of_bucket i b js = concat (map (\<lambda>j. case svec b ! j of None \<Rightarrow> [] | Some v \<Rightarrow> [(i, j, v)]) js)"

definition slots_of_table :: "('a, 's) table \<Rightarrow> nat list \<Rightarrow> (nat \<times> nat \<times> 'a list) list" where
  "slots_of_table t is = concat (map (\<lambda>i. case buckets t ! i of None \<Rightarrow> []
      | Some b \<Rightarrow> slots_of_bucket i b [0..<bucket.index b]) is)"

text \<open>
  The body of the top-1 scan at one live slot, with \<open>score v\<close> for
  \<open>compare_vectors(b->svec[j], vector, dims_aligned)\<close>.
\<close>

definition top1_step :: "('s \<Rightarrow> 's \<Rightarrow> bool) \<Rightarrow> ('a list \<Rightarrow> 's) \<Rightarrow> nat \<times> nat \<times> 'a list
    \<Rightarrow> 's match_result_t \<Rightarrow> 's match_result_t" where
  "top1_step better score x result =
     (case x of (i, j, v) \<Rightarrow>
        if better (score v) (distance result) then \<lparr>mid = slot_id i j, distance = score v\<rparr>
        else result)"

text \<open>
  A result array is best-first when no entry is strictly better than an entry before it.
\<close>

definition best_first :: "('s \<Rightarrow> 's \<Rightarrow> bool) \<Rightarrow> 's match_result_t list \<Rightarrow> bool" where
  "best_first better result \<longleftrightarrow>
     (\<forall>i j. i < j \<longrightarrow> j < length result \<longrightarrow>
        \<not> better (distance (result ! j)) (distance (result ! i)))"

text \<open>
  The specification's words for the top-N scan, to compare with \<open>search_better_n_match\<close>:
  the \<open>n\<close> best live entries as a naive exhaustive sort gives them, tail padded with
  \<open>(-1, worst_value)\<close>. \<open>insert_sorted\<close> puts a candidate before the first entry it is
  strictly better than, so an earlier candidate stays ahead of a later one of equal score;
  nothing is dropped before the final cut to \<open>n\<close> entries.
\<close>

fun insert_sorted :: "('s \<Rightarrow> 's \<Rightarrow> bool) \<Rightarrow> 's match_result_t \<Rightarrow> 's match_result_t list
    \<Rightarrow> 's match_result_t list" where
  "insert_sorted better x [] = [x]"
| "insert_sorted better x (y # ys) =
     (if better (distance x) (distance y) then x # y # ys else y # insert_sorted better x ys)"

definition spec_top_n ::
  "('s \<Rightarrow> 's \<Rightarrow> bool) \<Rightarrow> 's \<Rightarrow> nat \<Rightarrow> 's match_result_t list \<Rightarrow> 's match_result_t list" where
  "spec_top_n better worst n cands =
     take n (fold (insert_sorted better) cands [] @ replicate n \<lparr>mid = - 1, distance = worst\<rparr>)"

definition spec_search_n :: "('a, 's) table \<Rightarrow> 'a list \<Rightarrow> int \<Rightarrow> 's match_result_t list" where
  "spec_search_n t q n =
     spec_top_n (is_better_match t) (worst_match_value t) (nat n)
       (map (\<lambda>(i, j, v). \<lparr>mid = slot_id i j, distance = compare_vectors t v q (dims_aligned t)\<rparr>)
          (live_slots t))"

section \<open>Example tables\<close>

text \<open>
  The table \<open>victor_table(4, L2NORM)\<close> returns when every allocation succeeds, and the
  table a sequence of calls leaves behind.
\<close>

definition all_ok :: "bool \<times> bool \<times> bool" where
  "all_ok = (True, True, True)"

definition fresh4 :: "(real, score) table" where
  "fresh4 = the (projr (victor_table True all_ok 4 L2NORM))"

text \<open>
  The same for dimension 262144, where a bucket has a single slot.
\<close>

definition fresh1 :: "(real, score) table" where
  "fresh1 = the (projr (victor_table True all_ok 262144 L2NORM))"

definition after :: "('a::zero, 's) table \<Rightarrow> 'a call list \<Rightarrow> ('a, 's) table" where
  "after t ops = fst (projr (run t 0 ops))"

text \<open>
  The table of dimension 4 after the insert of \<open>[2,0,0,0]\<close>, and after two inserts of
  \<open>[1,0,0,0]\<close>.
\<close>

definition one4 :: "(real, score) table" where
  "one4 = after fresh4 [Insert all_ok [2, 0, 0, 0]]"

definition dup4 :: "(real, score) table" where
  "dup4 = after fresh4 [Insert all_ok [1, 0, 0, 0], Insert all_ok [1, 0, 0, 0]]"

text \<open>The table of dimension 4 after the inserts of \<open>[2,0,0,0]\<close> and \<open>[1,0,0,0]\<close>.\<close>

definition two4 :: "(real, score) table" where
  "two4 = after fresh4 [Insert all_ok [2, 0, 0, 0], Insert all_ok [1, 0, 0, 0]]"

text \<open>
  The table of dimension 4 after the inserts of \<open>[2,0,0,0]\<close>, \<open>[0,2,0,0]\<close> and
  \<open>[1,0,0,0]\<close>: the first two are at the same distance from the origin.
\<close>

definition three4 :: "(real, score) table" where
  "three4 = after fresh4 [Insert all_ok [2, 0, 0, 0], Insert all_ok [0, 2, 0, 0],
                          Insert all_ok [1, 0, 0, 0]]"



section \<open>The identifier codec: properties\<close>

lemma slot_mask_24: "(0x00FFFFFF :: 32 word) = mask 24"
  by (simp add: mask_eq_exp_minus_1)

lemma encode_low_bits:
  assumes "s < 2 ^ 24"
  shows "encode_vector_id b s AND 0x00FFFFFF = s"
proof -
  have s: "s AND mask 24 = s"
    using assms by (simp add: less_mask_eq)
  have "(push_bit 24 (scast b) OR (s AND mask 24)) AND mask 24 = s AND mask 24"
    by (rule bit_word_eqI) (auto simp: bit_simps)
  then show ?thesis
    unfolding encode_vector_id_def slot_mask_24 s .
qed

lemma encode_high_bits: "(ucast (signed_drop_bit 24 (encode_vector_id b s)) :: 8 word) = b"
  unfolding encode_vector_id_def slot_mask_24
  by (rule bit_word_eqI) (auto simp: bit_simps)

lemma sint_int8: "0 \<le> b \<Longrightarrow> b < 128 \<Longrightarrow> sint (word_of_int b :: 8 word) = b"
  by (simp add: sint_sbintrunc' signed_take_bit_int_eq_self)

lemma sint_int32: "0 \<le> s \<Longrightarrow> s < 2 ^ 24 \<Longrightarrow> sint (word_of_int s :: 32 word) = s"
  by (simp add: sint_sbintrunc' signed_take_bit_int_eq_self)

lemma slot_word_less: "0 \<le> s \<Longrightarrow> s < 2 ^ 24 \<Longrightarrow> (word_of_int s :: 32 word) < 2 ^ 24"
  by (simp add: word_less_def uint_word_of_int take_bit_int_eq_self)

lemma decode_ib_encode:
  "0 \<le> b \<Longrightarrow> b < 128 \<Longrightarrow> decode_ib (encode_vector_id (word_of_int b) s) = b"
  by (simp add: decode_ib_def encode_high_bits sint_int8)

lemma decode_iv_encode:
  assumes "0 \<le> s" and "s < 2 ^ 24"
  shows "decode_iv (encode_vector_id b (word_of_int s)) = s"
proof -
  have "encode_vector_id b (word_of_int s) AND 0x00FFFFFF = word_of_int s"
    by (rule encode_low_bits) (rule slot_word_less [OF assms])
  then show ?thesis
    unfolding decode_iv_def by (simp only: sint_int32 [OF assms])
qed

text \<open>
  Claim C5. For every bucket index \<open>0 \<le> b < 128\<close> and every slot index \<open>0 \<le> s < 2^24\<close>,
  decoding the encoded identifier as \<open>delete_vector\<close> does gives back \<open>(b, s)\<close>: the
  sign-extended top byte is \<open>b\<close> and the low 24 bits are \<open>s\<close>.
\<close>

theorem encode_decode_roundtrip:
  fixes b s :: int
  assumes "0 \<le> b" and "b < 128" and "0 \<le> s" and "s < 2 ^ 24"
  shows "decode_ib (encode_vector_id (word_of_int b) (word_of_int s)) = b
       \<and> decode_iv (encode_vector_id (word_of_int b) (word_of_int s)) = s"
  using assms by (simp add: decode_ib_encode decode_iv_encode)

theorem encode_decode_roundtrip_witness:
  "(0::int) \<le> 127 \<and> (127::int) < 128 \<and> (0::int) \<le> 16777215 \<and> (16777215::int) < 2 ^ 24
   \<and> decode_ib (encode_vector_id (word_of_int 127) (word_of_int 16777215)) = 127
   \<and> decode_iv (encode_vector_id (word_of_int 127) (word_of_int 16777215)) = 16777215"
  using encode_decode_roundtrip [of 127 16777215] by simp

section \<open>Identifiers of slots\<close>

lemma sint_nonneg_iff: "0 \<le> sint (w :: 32 word) \<longleftrightarrow> \<not> bit w 31"
  by (simp add: sint_uint bit_simps)

lemma sint8_nonneg_iff: "0 \<le> sint (w :: 8 word) \<longleftrightarrow> \<not> bit w 7"
  by (simp add: sint_uint bit_simps)

lemma encode_sign_bit: "bit (encode_vector_id b s) 31 \<longleftrightarrow> bit b 7"
  unfolding encode_vector_id_def slot_mask_24
  by (auto simp: bit_simps)

lemma slot_id_nonneg: assumes "i < 128" shows "0 \<le> slot_id i j"
proof -
  have "sint (word_of_int (int i) :: 8 word) = int i"
    using assms by (intro sint_int8) simp_all
  then have "0 \<le> sint (word_of_nat i :: 8 word)" by simp
  then have "\<not> bit (word_of_nat i :: 8 word) 7" by (simp add: sint8_nonneg_iff)
  then have "\<not> bit (encode_vector_id (word_of_nat i) (word_of_nat j)) 31"
    by (simp add: encode_sign_bit)
  then show ?thesis
    unfolding slot_id_def by (simp add: sint_nonneg_iff)
qed





lemma store_vector_Inr:
  assumes "store_vector t b v = Inr (r, t')"
  shows "bucket.index b < length (svec b) \<and> svec b ! bucket.index b \<noteq> None
       \<and> r = slot_id (table.index t) (bucket.index b)
       \<and> t' = t\<lparr>buckets := (buckets t)[table.index t :=
            Some (b\<lparr>svec := (svec b)[bucket.index b :=
                      Some (take (nat (dims t)) v @ replicate (nat (dims_aligned t - dims t)) 0)],
                    bucket.index := bucket.index b + 1\<rparr>)]\<rparr>"
  using assms
  by (auto simp: store_vector_def Let_def split: if_splits option.splits)

lemma alloc_bucket_Some:
  assumes "alloc_bucket mem d = Inr (Some b)"
  shows "b = \<lparr>bucket.index = 0, svec = replicate (SVEC_SIZE d) (Some (replicate (nat d) 0))\<rparr>"
  using assms
  by (auto simp: alloc_bucket_def Let_def split: if_splits prod.splits)

lemma insert_vector_cases:
  fixes t :: "('a::zero, 's) table"
  assumes "insert_vector mem t v = Inr (r, t')" "buckets t ! table.index t = Some b"
  shows "(r = - 1 \<and> t' = t \<and> bucket.index b \<ge> svec_size t
            \<and> (\<not> table.index t + 1 < MAX_BUCKETS \<or> alloc_bucket mem (dims_aligned t) = (Inr None :: fault + ('a::zero) bucket option)))
       \<or> (bucket.index b < svec_size t \<and> store_vector t b v = Inr (r, t'))
       \<or> (bucket.index b \<ge> svec_size t \<and> table.index t + 1 < MAX_BUCKETS
            \<and> (\<exists>b_new. alloc_bucket mem (dims_aligned t) = Inr (Some b_new)
                 \<and> store_vector (t\<lparr>table.index := table.index t + 1,
                        buckets := (buckets t)[table.index t + 1 := Some b_new]\<rparr>) b_new v = Inr (r, t')))"
  using assms
  by (auto simp: insert_vector_def split: if_splits option.splits sum.splits)

section \<open>The invariant is established and kept\<close>

lemma table_inv_cur:
  assumes "table_inv t k"
  obtains b where "buckets t ! table.index t = Some b" "k = table.index t * svec_size t + bucket.index b"
    "bucket.index b \<le> svec_size t" "length (svec b) = svec_size t" "0 < table.index t \<longrightarrow> 0 < bucket.index b"
  using assms unfolding table_inv_def by (metis order_refl option.inject)

lemma store_current_inv:
  assumes inv: "table_inv t k" and b: "buckets t ! table.index t = Some b"
    and st: "store_vector t b v = Inr (r, t')"
  shows "0 \<le> r \<and> table_inv t' (Suc k) \<and> r = slot_id (table.index t) (bucket.index b)"
proof -
  from store_vector_Inr[OF st] have lt: "bucket.index b < length (svec b)"
    and r: "r = slot_id (table.index t) (bucket.index b)"
    and t': "t' = t\<lparr>buckets := (buckets t)[table.index t :=
            Some (b\<lparr>svec := (svec b)[bucket.index b :=
                      Some (take (nat (dims t)) v @ replicate (nat (dims_aligned t - dims t)) 0)],
                    bucket.index := bucket.index b + 1\<rparr>)]\<rparr>" by simp_all
  have I: "table.index t < 128" using inv by (simp add: table_inv_def MAX_BUCKETS_def)
  have "0 \<le> r" unfolding r by (rule slot_id_nonneg[OF I])
  moreover have "table_inv t' (Suc k)"
    using inv b lt unfolding t' table_inv_def
    by (auto simp: nth_list_update)
  ultimately show ?thesis using r by simp
qed

lemma table_invI:
  assumes "length (buckets t) = MAX_BUCKETS" "table.index t < MAX_BUCKETS"
    "svec_size t = SVEC_SIZE (dims_aligned t)" "(dims_aligned t * 4) mod 2 ^ 64 \<noteq> 0"
    "\<And>i. i \<le> table.index t \<Longrightarrow> \<exists>b. buckets t ! i = Some b \<and> length (svec b) = svec_size t \<and>
         bucket.index b \<le> svec_size t \<and> (i < table.index t \<longrightarrow> bucket.index b = svec_size t)"
    "\<And>i. table.index t < i \<Longrightarrow> i < MAX_BUCKETS \<Longrightarrow> buckets t ! i = None"
    "\<exists>b. buckets t ! table.index t = Some b \<and>
         k = table.index t * svec_size t + bucket.index b \<and>
         (0 < table.index t \<longrightarrow> 0 < bucket.index b)"
  shows "table_inv t k"
  unfolding table_inv_def using assms by simp

lemma table_inv_new_bucket:
  assumes inv: "table_inv t k" and b: "buckets t ! table.index t = Some b"
    and h: "bucket.index b = svec_size t" and room: "table.index t + 1 < MAX_BUCKETS"
    and pos: "0 < svec_size t" and len: "length (svec c) = svec_size t" and one: "bucket.index c = 1"
  shows "table_inv (t\<lparr>table.index := table.index t + 1,
                      buckets := (buckets t)[table.index t + 1 := Some c]\<rparr>) (Suc k)"
proof (rule table_invI)
  let ?I = "table.index t"
  let ?t' = "t\<lparr>table.index := ?I + 1, buckets := (buckets t)[?I + 1 := Some c]\<rparr>"
  have L: "length (buckets t) = MAX_BUCKETS" using inv by (simp add: table_inv_def)
  have nth: "buckets ?t' ! j = (if j = ?I + 1 then Some c else buckets t ! j)" if "j < MAX_BUCKETS" for j
    using that room L by (simp add: nth_list_update)
  from inv b have k: "k = ?I * svec_size t + bucket.index b"
    unfolding table_inv_def by auto
  show "length (buckets ?t') = MAX_BUCKETS" using L by simp
  show "table.index ?t' < MAX_BUCKETS" using room by simp
  show "svec_size ?t' = SVEC_SIZE (dims_aligned ?t')" using inv by (simp add: table_inv_def)
  show "(dims_aligned ?t' * 4) mod 2 ^ 64 \<noteq> 0" using inv by (simp add: table_inv_def)
  show "\<exists>d. buckets ?t' ! j = Some d \<and> length (svec d) = svec_size ?t' \<and>
         bucket.index d \<le> svec_size ?t' \<and> (j < table.index ?t' \<longrightarrow> bucket.index d = svec_size ?t')"
    if "j \<le> table.index ?t'" for j
  proof (cases "j = ?I + 1")
    case True
    have "buckets ?t' ! j = Some c" using nth[OF room] True by simp
    then show ?thesis using True len one pos by simp
  next
    case False
    with that have jI: "j \<le> ?I" by simp
    then have j: "j < MAX_BUCKETS" using room by simp
    from inv jI obtain d where d: "buckets t ! j = Some d" "length (svec d) = svec_size t"
      "bucket.index d \<le> svec_size t" "j < ?I \<longrightarrow> bucket.index d = svec_size t"
      unfolding table_inv_def by blast
    have "bucket.index d = svec_size t"
    proof (cases "j = ?I")
      case True
      with d(1) b have "d = b" by simp
      then show ?thesis using h by simp
    next
      case False
      then show ?thesis using jI d(4) by simp
    qed
    moreover have "buckets ?t' ! j = Some d" using nth[OF j] False d(1) by simp
    ultimately show ?thesis using d(2) by simp
  qed
  show "buckets ?t' ! j = None" if "table.index ?t' < j" "j < MAX_BUCKETS" for j
  proof -
    from that have "?I < j" "j \<noteq> ?I + 1" by simp_all
    moreover have "buckets t ! j = None" using inv \<open>?I < j\<close> that(2) unfolding table_inv_def by blast
    ultimately show ?thesis using nth[OF that(2)] by simp
  qed
  have "buckets ?t' ! (?I + 1) = Some c" using nth[OF room] by simp
  then show "\<exists>d. buckets ?t' ! table.index ?t' = Some d \<and>
         Suc k = table.index ?t' * svec_size ?t' + bucket.index d \<and>
         (0 < table.index ?t' \<longrightarrow> 0 < bucket.index d)"
    using k h one by simp
qed

lemma insert_vector_inv:
  assumes inv: "table_inv t k" and ins: "insert_vector mem t v = Inr (r, t')"
  shows "(r = - 1 \<and> t' = t) \<or> (0 \<le> r \<and> table_inv t' (Suc k))"
proof -
  from inv obtain b where b: "buckets t ! table.index t = Some b"
    and k: "k = table.index t * svec_size t + bucket.index b"
    and le: "bucket.index b \<le> svec_size t" and "length (svec b) = svec_size t"
    and "0 < table.index t \<longrightarrow> 0 < bucket.index b" by (rule table_inv_cur)
  from insert_vector_cases[OF ins b]
  consider (fail) "r = - 1" "t' = t"
    | (cur) "bucket.index b < svec_size t" "store_vector t b v = Inr (r, t')"
    | (new) b_new where "bucket.index b \<ge> svec_size t" "table.index t + 1 < MAX_BUCKETS"
        "alloc_bucket mem (dims_aligned t) = Inr (Some b_new)"
        "store_vector (t\<lparr>table.index := table.index t + 1,
            buckets := (buckets t)[table.index t + 1 := Some b_new]\<rparr>) b_new v = Inr (r, t')"
    by blast
  then show ?thesis
  proof cases
    case fail
    then show ?thesis by simp
  next
    case cur
    then show ?thesis using store_current_inv[OF inv b] by simp
  next
    case new
    let ?t1 = "t\<lparr>table.index := table.index t + 1,
            buckets := (buckets t)[table.index t + 1 := Some b_new]\<rparr>"
    have bn: "b_new = \<lparr>bucket.index = 0, svec = replicate (svec_size t) (Some (replicate (nat (dims_aligned t)) 0))\<rparr>"
      using alloc_bucket_Some[OF new(3)] inv by (simp add: table_inv_def)
    from store_vector_Inr[OF new(4)] have pos: "0 < svec_size t"
      and r: "r = slot_id (table.index t + 1) 0"
      and t': "t' = ?t1\<lparr>buckets := (buckets ?t1)[table.index ?t1 :=
            Some (b_new\<lparr>svec := (svec b_new)[bucket.index b_new :=
                      Some (take (nat (dims ?t1)) v @ replicate (nat (dims_aligned ?t1 - dims ?t1)) 0)],
                    bucket.index := bucket.index b_new + 1\<rparr>)]\<rparr>"
      by (simp_all add: bn)
    have h: "bucket.index b = svec_size t" using le new(1) by simp
    have "0 \<le> r" unfolding r using new(2) by (intro slot_id_nonneg) (simp add: MAX_BUCKETS_def)
    moreover have "table_inv t' (Suc k)"
      unfolding t' using table_inv_new_bucket[OF inv b h new(2) pos, of
          "b_new\<lparr>svec := (svec b_new)[bucket.index b_new :=
                      Some (take (nat (dims ?t1)) v @ replicate (nat (dims_aligned ?t1 - dims ?t1)) 0)],
                    bucket.index := bucket.index b_new + 1\<rparr>"]
      by (simp add: bn)
    ultimately show ?thesis by simp
  qed
qed


lemma table_inv_bucketD:
  assumes "table_inv t k" "i < MAX_BUCKETS" "buckets t ! i = Some b"
  shows "i \<le> table.index t" "length (svec b) = svec_size t" "bucket.index b \<le> svec_size t"
    "i < table.index t \<longrightarrow> bucket.index b = svec_size t"
proof -
  show le: "i \<le> table.index t"
    using assms unfolding table_inv_def by (metis not_le option.distinct(1))
  from assms(1) le obtain b' where "buckets t ! i = Some b'" "length (svec b') = svec_size t"
    "bucket.index b' \<le> svec_size t" "i < table.index t \<longrightarrow> bucket.index b' = svec_size t"
    unfolding table_inv_def by blast
  with assms(3) show "length (svec b) = svec_size t" "bucket.index b \<le> svec_size t"
    "i < table.index t \<longrightarrow> bucket.index b = svec_size t" by simp_all
qed

lemma table_inv_bucket_update:
  assumes inv: "table_inv t k" and i: "i < MAX_BUCKETS" and b: "buckets t ! i = Some b"
    and ix: "bucket.index b' = bucket.index b" and len: "length (svec b') = length (svec b)"
  shows "table_inv (t\<lparr>buckets := (buckets t)[i := Some b']\<rparr>) k"
proof (rule table_invI)
  let ?t' = "t\<lparr>buckets := (buckets t)[i := Some b']\<rparr>"
  have L: "length (buckets t) = MAX_BUCKETS" using inv by (simp add: table_inv_def)
  have nth: "buckets ?t' ! j = (if j = i then Some b' else buckets t ! j)" if "j < MAX_BUCKETS" for j
    using that i L by (simp add: nth_list_update)
  have I: "table.index t < MAX_BUCKETS" using inv by (simp add: table_inv_def)
  note D = table_inv_bucketD[OF inv i b]
  show "length (buckets ?t') = MAX_BUCKETS" using L by simp
  show "table.index ?t' < MAX_BUCKETS" using I by simp
  show "svec_size ?t' = SVEC_SIZE (dims_aligned ?t')" using inv by (simp add: table_inv_def)
  show "(dims_aligned ?t' * 4) mod 2 ^ 64 \<noteq> 0" using inv by (simp add: table_inv_def)
  show "\<exists>c. buckets ?t' ! j = Some c \<and> length (svec c) = svec_size ?t' \<and>
         bucket.index c \<le> svec_size ?t' \<and> (j < table.index ?t' \<longrightarrow> bucket.index c = svec_size ?t')"
    if "j \<le> table.index ?t'" for j
  proof (cases "j = i")
    case True
    have "buckets ?t' ! j = Some b'" using nth[OF i] True by simp
    then show ?thesis using D ix len True by simp
  next
    case False
    from that I have j: "j < MAX_BUCKETS" by simp
    from that have "j \<le> table.index t" by simp
    with inv obtain c where c: "buckets t ! j = Some c" "length (svec c) = svec_size t"
      "bucket.index c \<le> svec_size t" "j < table.index t \<longrightarrow> bucket.index c = svec_size t"
      unfolding table_inv_def by blast
    have "buckets ?t' ! j = Some c" using False nth[OF j] c(1) by simp
    then show ?thesis using c by simp
  qed
  show "buckets ?t' ! j = None" if "table.index ?t' < j" "j < MAX_BUCKETS" for j
  proof -
    from that have lt: "table.index t < j" by simp
    then have "j \<noteq> i" using D(1) by auto
    moreover have "buckets t ! j = None" using inv lt that(2) unfolding table_inv_def by blast
    ultimately show ?thesis using nth[OF that(2)] by simp
  qed
  from inv obtain c where c: "buckets t ! table.index t = Some c"
    "k = table.index t * svec_size t + bucket.index c" "0 < table.index t \<longrightarrow> 0 < bucket.index c"
    by (rule table_inv_cur)
  show "\<exists>c. buckets ?t' ! table.index ?t' = Some c \<and>
         k = table.index ?t' * svec_size ?t' + bucket.index c \<and>
         (0 < table.index ?t' \<longrightarrow> 0 < bucket.index c)"
  proof (cases "table.index t = i")
    case True
    with b c have cb: "c = b" by simp
    have "buckets ?t' ! table.index t = Some b'" using nth[OF I] True by simp
    then show ?thesis using c cb ix by simp
  next
    case False
    have "buckets ?t' ! table.index t = Some c" using nth[OF I] False c(1) by simp
    then show ?thesis using c by simp
  qed
qed

lemma delete_vector_inv:
  assumes inv: "table_inv t k"
  shows "table_inv (snd (delete_vector t ident)) k"
proof (cases "snd (delete_vector t ident) = t")
  case True
  then show ?thesis using inv by simp
next
  case False
  define ib where "ib = nat (decode_ib (word_of_int ident))"
  define iv where "iv = nat (decode_iv (word_of_int ident))"
  from False obtain b where ib: "ib < MAX_BUCKETS" and b: "buckets t ! ib = Some b"
    and t': "snd (delete_vector t ident) = t\<lparr>buckets := (buckets t)[ib := Some (b\<lparr>svec := (svec b)[iv := None]\<rparr>)]\<rparr>"
    unfolding delete_vector_def Let_def ib_def iv_def
    by (auto split: if_splits)
  show ?thesis unfolding t'
    by (rule table_inv_bucket_update[OF inv ib b]) simp_all
qed

lemma run_inv:
  "table_inv t k \<Longrightarrow> run t k ops = Inr (t', k') \<Longrightarrow> table_inv t' k' \<and> k \<le> k'"
proof (induction ops arbitrary: t k)
  case Nil
  then show ?case by simp
next
  case (Cons c ops)
  show ?case
  proof (cases c)
    case (Insert mem v)
    with Cons.prems obtain r t1 where ins: "insert_vector mem t v = Inr (r, t1)"
      and rest: "run t1 (if r = - 1 then k else Suc k) ops = Inr (t', k')"
      by (auto split: sum.splits)
    from insert_vector_inv[OF Cons.prems(1) ins]
    have "table_inv t1 (if r = - 1 then k else Suc k)"
      using Cons.prems(1) by auto
    from Cons.IH[OF this rest] show ?thesis by (auto split: if_splits)
  next
    case (Delete ident)
    with Cons.prems have rest: "run (snd (delete_vector t ident)) k ops = Inr (t', k')" by simp
    from Cons.IH[OF delete_vector_inv[OF Cons.prems(1)] rest] show ?thesis .
  next
    case (Search q)
    with Cons show ?thesis by simp
  next
    case (SearchN m q n)
    with Cons show ?thesis by simp
  qed
qed

lemma victor_table_Some:
  assumes "victor_table table_ok mem d mode = Inr (Some t)"
  shows "d + 3 < 2 ^ 31" "(ALIGN_DIMS d * 4) mod 2 ^ 64 \<noteq> 0" "mode = L2NORM \<or> mode = COSINE"
    "t = \<lparr>dims = d, dims_aligned = ALIGN_DIMS d,
                        svec_size = SVEC_SIZE (ALIGN_DIMS d), cmpmode = mode,
                        worst_match_value = (if mode = L2NORM then Infinity else Finite (- 1)),
                        table.index = 0,
                        is_better_match =
                          (if mode = L2NORM then euclidean_distance_best
                           else cosine_similarity_best),
                        compare_vectors =
                          (if mode = L2NORM then euclidean_distance else cosine_similarity),
                        buckets = (replicate MAX_BUCKETS None)[0 := Some
                          \<lparr>bucket.index = 0, svec = replicate (SVEC_SIZE (ALIGN_DIMS d))
                              (Some (replicate (nat (ALIGN_DIMS d)) 0))\<rparr>]\<rparr>"
proof -
  have ok: "table_ok" using assms by (simp add: victor_table_def split: if_splits)
  show 1: "d + 3 < 2 ^ 31" using assms ok by (simp add: victor_table_def split: if_splits)
  show 2: "(ALIGN_DIMS d * 4) mod 2 ^ 64 \<noteq> 0"
    using assms ok 1 by (simp add: victor_table_def split: if_splits)
  show 3: "mode = L2NORM \<or> mode = COSINE"
    using assms ok 1 2 by (simp add: victor_table_def split: if_splits)
  have c: "(case alloc_bucket mem (ALIGN_DIMS d) :: fault + real bucket option of
           Inl f \<Rightarrow> Inl f
         | Inr None \<Rightarrow> Inr None
         | Inr (Some b) \<Rightarrow>
             Inr (Some \<lparr>dims = d, dims_aligned = ALIGN_DIMS d,
                        svec_size = SVEC_SIZE (ALIGN_DIMS d), cmpmode = mode,
                        worst_match_value = (if mode = L2NORM then Infinity else Finite (- 1)),
                        table.index = 0,
                        is_better_match =
                          (if mode = L2NORM then euclidean_distance_best
                           else cosine_similarity_best),
                        compare_vectors =
                          (if mode = L2NORM then euclidean_distance else cosine_similarity),
                        buckets = (replicate MAX_BUCKETS None)[0 := Some b]\<rparr>)) = Inr (Some t)"
    using assms ok 1 2 3 unfolding victor_table_def by (simp split: if_splits)
  then obtain b :: "real bucket" where al: "alloc_bucket mem (ALIGN_DIMS d) = Inr (Some b)"
    by (cases "alloc_bucket mem (ALIGN_DIMS d) :: fault + real bucket option") (auto split: option.splits)
  from c show "t = \<lparr>dims = d, dims_aligned = ALIGN_DIMS d,
                        svec_size = SVEC_SIZE (ALIGN_DIMS d), cmpmode = mode,
                        worst_match_value = (if mode = L2NORM then Infinity else Finite (- 1)),
                        table.index = 0,
                        is_better_match =
                          (if mode = L2NORM then euclidean_distance_best
                           else cosine_similarity_best),
                        compare_vectors =
                          (if mode = L2NORM then euclidean_distance else cosine_similarity),
                        buckets = (replicate MAX_BUCKETS None)[0 := Some
                          \<lparr>bucket.index = 0, svec = replicate (SVEC_SIZE (ALIGN_DIMS d))
                              (Some (replicate (nat (ALIGN_DIMS d)) 0))\<rparr>]\<rparr>"
    unfolding al using alloc_bucket_Some[OF al] by simp
qed

lemma victor_table_inv:
  assumes "victor_table table_ok mem d mode = Inr (Some t)"
  shows "table_inv t 0" "table_conf t" "no_null_slot t" "dims t = d" "cmpmode t = mode"
proof -
  note S = victor_table_Some[OF assms]
  note t = S(4)
  have b0: "buckets t ! 0 = Some \<lparr>bucket.index = 0, svec = replicate (SVEC_SIZE (ALIGN_DIMS d))
                              (Some (replicate (nat (ALIGN_DIMS d)) 0))\<rparr>"
    by (subst t) (simp add: MAX_BUCKETS_def)
  have bj: "buckets t ! j = None" if "0 < j" "j < MAX_BUCKETS" for j
    using that by (subst t) simp
  have f: "table.index t = 0" "svec_size t = SVEC_SIZE (ALIGN_DIMS d)" "dims_aligned t = ALIGN_DIMS d"
    "length (buckets t) = MAX_BUCKETS"
    by (subst t, simp)+
  show "table_inv t 0"
  proof (rule table_invI)
    show "length (buckets t) = MAX_BUCKETS" by (rule f)
    show "table.index t < MAX_BUCKETS" using f by (simp add: MAX_BUCKETS_def)
    show "svec_size t = SVEC_SIZE (dims_aligned t)" using f by simp
    show "(dims_aligned t * 4) mod 2 ^ 64 \<noteq> 0" using f S(2) by simp
    show "\<exists>b. buckets t ! i = Some b \<and> length (svec b) = svec_size t \<and>
         bucket.index b \<le> svec_size t \<and> (i < table.index t \<longrightarrow> bucket.index b = svec_size t)"
      if "i \<le> table.index t" for i
      using that f b0 by simp
    show "buckets t ! i = None" if "table.index t < i" "i < MAX_BUCKETS" for i
      using that f bj by simp
    show "\<exists>b. buckets t ! table.index t = Some b \<and>
         0 = table.index t * svec_size t + bucket.index b \<and>
         (0 < table.index t \<longrightarrow> 0 < bucket.index b)"
      using f b0 by simp
  qed
  have g: "dims t = d" "cmpmode t = mode"
    "worst_match_value t = (if mode = L2NORM then Infinity else Finite (- 1))"
    "is_better_match t = (if mode = L2NORM then euclidean_distance_best else cosine_similarity_best)"
    "compare_vectors t = (if mode = L2NORM then euclidean_distance else cosine_similarity)"
    by (subst t, simp)+
  show "table_conf t"
    unfolding table_conf_def using S(1,3) g f(3) by simp
  show "no_null_slot t"
    unfolding no_null_slot_def
  proof (intro allI impI)
    fix i b j
    assume "i \<le> table.index t" "buckets t ! i = Some b" "j < length (svec b)"
    then have "b = \<lparr>bucket.index = 0, svec = replicate (SVEC_SIZE (ALIGN_DIMS d))
                              (Some (replicate (nat (ALIGN_DIMS d)) 0))\<rparr>"
      using f(1) b0 by simp
    then show "svec b ! j \<noteq> None" using \<open>j < length (svec b)\<close> by simp
  qed
  show "dims t = d" "cmpmode t = mode" by (rule g)+
qed

section \<open>Monotone filling\<close>

lemma same_conf_refl: "same_conf t t" by (simp add: same_conf_def)
lemma same_conf_trans: "same_conf a b \<Longrightarrow> same_conf b c \<Longrightarrow> same_conf a c" by (simp add: same_conf_def)

lemma insert_vector_conf:
  assumes "insert_vector mem t v = Inr (r, t')"
  shows "same_conf t t'"
  using assms
  by (auto simp: insert_vector_def store_vector_def same_conf_def Let_def split: if_splits option.splits sum.splits)

lemma delete_vector_conf: "same_conf t (snd (delete_vector t ident))"
  by (simp add: delete_vector_def same_conf_def Let_def)

lemma high_water_le_refl: "high_water_le t t" by (simp add: high_water_le_def)
lemma high_water_le_trans: "high_water_le a b \<Longrightarrow> high_water_le b c \<Longrightarrow> high_water_le a c"
  unfolding high_water_le_def by (meson order_trans)

lemma insert_vector_high_water:
  assumes inv: "table_inv t k" and ins: "insert_vector mem t v = Inr (r, t')"
  shows "high_water_le t t'"
proof -
  from inv obtain b where b: "buckets t ! table.index t = Some b"
    by (rule table_inv_cur)
  have len: "length (buckets t) = MAX_BUCKETS" and I: "table.index t < MAX_BUCKETS"
    and later: "\<forall>i. table.index t < i \<longrightarrow> i < MAX_BUCKETS \<longrightarrow> buckets t ! i = None"
    using inv by (simp_all add: table_inv_def)
  from insert_vector_cases[OF ins b]
  consider (fail) "r = - 1" "t' = t"
    | (cur) "bucket.index b < svec_size t" "store_vector t b v = Inr (r, t')"
    | (new) b_new where "bucket.index b \<ge> svec_size t" "table.index t + 1 < MAX_BUCKETS"
        "alloc_bucket mem (dims_aligned t) = Inr (Some b_new)"
        "store_vector (t\<lparr>table.index := table.index t + 1,
            buckets := (buckets t)[table.index t + 1 := Some b_new]\<rparr>) b_new v = Inr (r, t')"
    by blast
  then show ?thesis
  proof cases
    case fail
    then show ?thesis by (simp add: high_water_le_refl)
  next
    case cur
    from store_vector_Inr[OF cur(2)] show ?thesis
      using b len I unfolding high_water_le_def by (auto simp: nth_list_update)
  next
    case new
    from store_vector_Inr[OF new(4)] show ?thesis
      using b len I later new(2) unfolding high_water_le_def by (auto simp: nth_list_update)
  qed
qed

lemma delete_vector_high_water:
  assumes inv: "table_inv t k"
  shows "high_water_le t (snd (delete_vector t ident))"
proof -
  have "length (buckets t) = MAX_BUCKETS" using inv by (simp add: table_inv_def)
  then show ?thesis
    unfolding delete_vector_def Let_def high_water_le_def
    by (auto simp: nth_list_update)
qed

lemma run_conf_high_water:
  "table_inv t k \<Longrightarrow> run t k ops = Inr (t', k') \<Longrightarrow> same_conf t t' \<and> high_water_le t t'"
proof (induction ops arbitrary: t k)
  case Nil
  then show ?case by (simp add: same_conf_refl high_water_le_refl)
next
  case (Cons c ops)
  show ?case
  proof (cases c)
    case (Insert mem v)
    with Cons.prems obtain r t1 where ins: "insert_vector mem t v = Inr (r, t1)"
      and rest: "run t1 (if r = - 1 then k else Suc k) ops = Inr (t', k')"
      by (auto split: sum.splits)
    from insert_vector_inv[OF Cons.prems(1) ins]
    have "table_inv t1 (if r = - 1 then k else Suc k)"
      using Cons.prems(1) by auto
    from Cons.IH[OF this rest] insert_vector_conf[OF ins] insert_vector_high_water[OF Cons.prems(1) ins]
    show ?thesis by (blast intro: same_conf_trans high_water_le_trans)
  next
    case (Delete ident)
    with Cons.prems have rest: "run (snd (delete_vector t ident)) k ops = Inr (t', k')" by simp
    from Cons.IH[OF delete_vector_inv[OF Cons.prems(1)] rest]
      delete_vector_conf[of t ident] delete_vector_high_water[OF Cons.prems(1), of ident]
    show ?thesis by (blast intro: same_conf_trans high_water_le_trans)
  next
    case (Search q)
    with Cons show ?thesis by simp
  next
    case (SearchN m q n)
    with Cons show ?thesis by simp
  qed
qed

lemma run_append:
  "run t k (ops1 @ ops2) = (case run t k ops1 of Inl f \<Rightarrow> Inl f | Inr (t1, k1) \<Rightarrow> run t1 k1 ops2)"
proof (induction ops1 arbitrary: t k)
  case Nil
  then show ?case by simp
next
  case (Cons c ops1)
  then show ?case by (cases c) (auto split: sum.splits)
qed

lemma filled_index:
  assumes inv: "table_inv t k" and k: "1 \<le> k"
  shows "table.index t = (k - 1) div svec_size t"
proof -
  from inv obtain b where "buckets t ! table.index t = Some b"
    and kk: "k = table.index t * svec_size t + bucket.index b"
    and le: "bucket.index b \<le> svec_size t" and "length (svec b) = svec_size t"
    and pos: "0 < table.index t \<longrightarrow> 0 < bucket.index b"
    by (rule table_inv_cur)
  have h: "0 < bucket.index b" using kk k pos by (cases "table.index t") auto
  then have "k - 1 = (bucket.index b - 1) + table.index t * svec_size t" using kk by simp
  moreover have "bucket.index b - 1 < svec_size t" using h le by simp
  ultimately show ?thesis by simp
qed

text \<open>
  Claim C4. After any sequence of calls from a fresh table in which \<open>k \<ge> 1\<close> inserts
  succeeded, whatever deletes and searches come in between: the current bucket is
  \<open>(k - 1) div N\<close>, every bucket before it is full, the buckets up to it exist and the later
  ones are null, and from any earlier point of the sequence on no bucket's count of
  handed-out slots has decreased.
\<close>

theorem monotone_filling:
  assumes "victor_table table_ok mem d mode = Inr (Some t0)"
    and "run t0 0 ops = Inr (t, k)" and "1 \<le> k"
  shows "svec_size t = SVEC_SIZE (ALIGN_DIMS d)
       \<and> table.index t = (k - 1) div svec_size t
       \<and> (\<forall>i<table.index t. \<exists>b. buckets t ! i = Some b \<and> bucket.index b = svec_size t)
       \<and> (\<forall>i\<le>table.index t. buckets t ! i \<noteq> None)
       \<and> (\<forall>i. table.index t < i \<longrightarrow> i < MAX_BUCKETS \<longrightarrow> buckets t ! i = None)
       \<and> (\<forall>ops1 ops2 t1 k1. ops = ops1 @ ops2 \<longrightarrow> run t0 0 ops1 = Inr (t1, k1)
            \<longrightarrow> high_water_le t1 t)"
proof -
  from victor_table_inv[OF assms(1)] have inv0: "table_inv t0 0" and conf0: "table_conf t0"
    and d: "dims t0 = d" by simp_all
  from run_inv[OF inv0 assms(2)] have inv: "table_inv t k" by simp
  from run_conf_high_water[OF inv0 assms(2)] have sc: "same_conf t0 t" by simp
  have N: "svec_size t = SVEC_SIZE (ALIGN_DIMS d)"
    using inv sc conf0 d by (simp add: table_inv_def same_conf_def table_conf_def)
  have mono: "high_water_le t1 t" if "ops = ops1 @ ops2" "run t0 0 ops1 = Inr (t1, k1)" for ops1 ops2 t1 k1
  proof -
    from that assms(2) have r2: "run t1 k1 ops2 = Inr (t, k)" by (simp add: run_append)
    from run_inv[OF inv0 that(2)] have "table_inv t1 k1" by simp
    from run_conf_high_water[OF this r2] show ?thesis by simp
  qed
  show ?thesis
    using N filled_index[OF inv assms(3)] inv mono unfolding table_inv_def
    by (metis (no_types, lifting) option.distinct(1) less_imp_le)
qed

lemmas ex_defs = all_ok_def victor_table_def alloc_bucket_def ALIGN_DIMS_def SVEC_SIZE_def STORE_SIZE_def
  L2NORM_def COSINE_def MAX_BUCKETS_def insert_vector_def store_vector_def slot_id_def
  encode_vector_id_def

lemma fresh4_eq: "victor_table True all_ok 4 L2NORM = Inr (Some fresh4)"
  by (simp add: fresh4_def ex_defs)

lemma run_one4: "run fresh4 0 [Insert all_ok [2, 0, 0, 0]] = Inr (after fresh4 [Insert all_ok [2, 0, 0, 0]], 1)"
  by (simp add: after_def fresh4_def ex_defs)

theorem monotone_filling_witness:
  "victor_table True all_ok 4 L2NORM = Inr (Some fresh4)
   \<and> run fresh4 0 [Insert all_ok [2, 0, 0, 0]] = Inr (after fresh4 [Insert all_ok [2, 0, 0, 0]], 1)
   \<and> (1::nat) \<le> 1
   \<and> table.index (after fresh4 [Insert all_ok [2, 0, 0, 0]]) = (1 - 1) div svec_size (after fresh4 [Insert all_ok [2, 0, 0, 0]])
   \<and> buckets (after fresh4 [Insert all_ok [2, 0, 0, 0]]) ! 0 \<noteq> None"
  using monotone_filling [OF fresh4_eq run_one4] fresh4_eq run_one4 by simp

section \<open>The scans visit the live slots\<close>

lemma fold_bucket:
  "fold (\<lambda>j acc. case svec b ! j of None \<Rightarrow> acc | Some v \<Rightarrow> body i j v acc) js acc
     = fold (\<lambda>(i, j, v). body i j v) (slots_of_bucket i b js) acc"
  by (induction js arbitrary: acc) (auto simp: slots_of_bucket_def split: option.splits)

lemma scan_bucket_fold:
  "scan_bucket body i b acc = fold (\<lambda>(i, j, v). body i j v) (slots_of_bucket i b [0..<bucket.index b]) acc"
  by (simp add: scan_bucket_def fold_bucket)

lemma fold_table:
  "fold (\<lambda>i acc. case buckets t ! i of None \<Rightarrow> acc | Some b \<Rightarrow> scan_bucket body i b acc) is acc
     = fold (\<lambda>(i, j, v). body i j v) (slots_of_table t is) acc"
  by (induction "is" arbitrary: acc) (auto simp: slots_of_table_def scan_bucket_fold split: option.splits)

lemma scan_table_fold:
  "scan_table body t acc = fold (\<lambda>(i, j, v). body i j v) (slots_of_table t [0..<Suc (table.index t)]) acc"
  unfolding scan_table_def by (rule fold_table)

lemma fold_append_single: "fold (\<lambda>x acc. acc @ [f x]) xs acc = acc @ map f xs"
  by (induction xs arbitrary: acc) auto

lemma live_slots_eq: "live_slots t = slots_of_table t [0..<Suc (table.index t)]"
proof -
  have eq: "(\<lambda>(i, j, v) acc. acc @ [(i, j, v)]) = (\<lambda>(x :: nat \<times> nat \<times> 'a list) acc. acc @ [x])"
    by (auto simp: fun_eq_iff)
  have "live_slots t = fold (\<lambda>x acc. acc @ [x]) (slots_of_table t [0..<Suc (table.index t)]) []"
    unfolding live_slots_def scan_table_fold eq ..
  also have "\<dots> = [] @ map (\<lambda>x. x) (slots_of_table t [0..<Suc (table.index t)])"
    by (rule fold_append_single)
  finally show ?thesis by simp
qed

lemma scan_table_live:
  "scan_table body t acc = fold (\<lambda>(i, j, v). body i j v) (live_slots t) acc"
  by (simp only: scan_table_fold live_slots_eq)

lemma slots_of_bucket_iff:
  "(i', j, v) \<in> set (slots_of_bucket i b js) \<longleftrightarrow> i' = i \<and> j \<in> set js \<and> svec b ! j = Some v"
  by (induction js) (auto simp: slots_of_bucket_def split: option.splits)

lemma slots_of_table_iff:
  "(i, j, v) \<in> set (slots_of_table t is) \<longleftrightarrow>
     i \<in> set is \<and> (\<exists>b. buckets t ! i = Some b \<and> j < bucket.index b \<and> svec b ! j = Some v)"
  by (induction "is") (auto simp: slots_of_table_def slots_of_bucket_iff split: option.splits)

lemma live_slots_iff:
  "(i, j, v) \<in> set (live_slots t) \<longleftrightarrow>
     i \<le> table.index t \<and> (\<exists>b. buckets t ! i = Some b \<and> j < bucket.index b \<and> svec b ! j = Some v)"
  unfolding live_slots_eq slots_of_table_iff by auto

section \<open>Failing inserts and returned identifiers\<close>

lemma reach_inv:
  assumes "victor_table table_ok mem0 d mode = Inr (Some t0)" and "run t0 0 ops = Inr (t, k)"
  shows "table_inv t k" "same_conf t0 t"
  using run_inv[OF victor_table_inv(1)[OF assms(1)] assms(2)]
    run_conf_high_water[OF victor_table_inv(1)[OF assms(1)] assms(2)] by simp_all

lemma insert_fails_capacity:
  assumes "buckets t ! table.index t = Some b" "svec_size t \<le> bucket.index b"
    "\<not> table.index t + 1 < MAX_BUCKETS"
  shows "insert_vector mem t v = Inr (- 1, t)"
  using assms by (simp add: insert_vector_def)

lemma insert_fails_memory:
  fixes t :: "('a::zero, 's) table"
  assumes "buckets t ! table.index t = Some b" "svec_size t \<le> bucket.index b"
    "table.index t + 1 < MAX_BUCKETS" "(dims_aligned t * 4) mod 2 ^ 64 \<noteq> 0" "\<not> (m1 \<and> m2 \<and> m3)"
  shows "insert_vector (m1, m2, m3) t v = Inr (- 1, t)"
proof -
  have "(alloc_bucket (m1, m2, m3) (dims_aligned t) :: fault + 'a bucket option) = Inr None"
    using assms(4,5) by (auto simp: alloc_bucket_def Let_def)
  then show ?thesis using assms(1-3) by (simp add: insert_vector_def)
qed

text \<open>
  Claim C8. On a table reached from \<open>victor_table\<close>, an insert that finds the current bucket
  full fails with \<open>-1\<close> and returns the table as it was, both when no bucket index is left
  (capacity) and when one of the allocations of the new bucket fails (out of memory); and
  whenever an insert returns \<open>-1\<close> the table after the call is the table before it.
\<close>

theorem insert_failure_keeps_table:
  assumes "victor_table table_ok mem0 d mode = Inr (Some t0)" and "run t0 0 ops = Inr (t, k)"
  shows "\<exists>b. buckets t ! table.index t = Some b
       \<and> (svec_size t \<le> bucket.index b \<and> \<not> table.index t + 1 < MAX_BUCKETS
            \<longrightarrow> insert_vector (m1, m2, m3) t v = Inr (- 1, t))
       \<and> (svec_size t \<le> bucket.index b \<and> table.index t + 1 < MAX_BUCKETS \<and> \<not> (m1 \<and> m2 \<and> m3)
            \<longrightarrow> insert_vector (m1, m2, m3) t v = Inr (- 1, t))
       \<and> (\<forall>r t'. insert_vector (m1, m2, m3) t v = Inr (r, t') \<longrightarrow> r = - 1 \<longrightarrow> t' = t)"
proof -
  note inv = reach_inv(1)[OF assms]
  from inv obtain b where b: "buckets t ! table.index t = Some b" by (rule table_inv_cur)
  have nz: "(dims_aligned t * 4) mod 2 ^ 64 \<noteq> 0" using inv by (simp add: table_inv_def)
  have "t' = t" if "insert_vector (m1, m2, m3) t v = Inr (r, t')" "r = - 1" for r t'
    using insert_vector_inv[OF inv that(1)] that(2) by auto
  then show ?thesis
    using b insert_fails_capacity[OF b] insert_fails_memory[OF b _ _ nz] by blast
qed

text \<open>
  Claim C10. On a table reached from \<open>victor_table\<close>, every identifier returned by an insert
  that succeeds is nonnegative, the bucket index never exceeds 127, and the identifier of
  every live slot is nonnegative, hence different from the sentinel \<open>-1\<close>.
\<close>

theorem inserted_id_nonnegative:
  assumes "victor_table table_ok mem0 d mode = Inr (Some t0)" and "run t0 0 ops = Inr (t, k)"
  shows "(\<forall>mem v r t'. insert_vector mem t v = Inr (r, t') \<longrightarrow> r \<noteq> - 1 \<longrightarrow> 0 \<le> r)
       \<and> (\<forall>mem v r t'. insert_vector mem t v = Inr (r, t') \<longrightarrow> t' \<noteq> t \<longrightarrow> 0 \<le> r)
       \<and> table.index t \<le> 127
       \<and> (\<forall>(i, j, v) \<in> set (live_slots t). 0 \<le> slot_id i j \<and> slot_id i j \<noteq> - 1)"
proof -
  note inv = reach_inv(1)[OF assms]
  have I: "table.index t < 128" using inv by (simp add: table_inv_def MAX_BUCKETS_def)
  have 1: "0 \<le> r" if "insert_vector mem t v = Inr (r, t')" "r \<noteq> - 1 \<or> t' \<noteq> t" for mem v r t'
    using insert_vector_inv[OF inv that(1)] that(2) by auto
  have 2: "0 \<le> slot_id i j \<and> slot_id i j \<noteq> - 1" if "(i, j, v) \<in> set (live_slots t)" for i j v
  proof -
    from that have "i \<le> table.index t" by (simp add: live_slots_iff)
    with I have "i < 128" by simp
    from slot_id_nonneg[OF this, of j] show ?thesis by simp
  qed
  show ?thesis using 1 2 I by auto
qed

section \<open>Capacity\<close>

lemma store_vector_ok:
  assumes "bucket.index b < length (svec b)" "svec b ! bucket.index b \<noteq> None"
    "0 \<le> dims t" "nat (dims t) \<le> length v"
  shows "\<exists>t'. store_vector t b v = Inr (slot_id (table.index t) (bucket.index b), t')"
  using assms by (auto simp: store_vector_def Let_def split: option.splits)

lemma no_null_slot_store:
  assumes nn: "no_null_slot t" and inv: "table_inv t k" and b: "buckets t ! table.index t = Some b"
    and st: "store_vector t b v = Inr (r, t')"
  shows "no_null_slot t'"
proof -
  note S = store_vector_Inr[OF st]
  have L: "length (buckets t) = MAX_BUCKETS" "table.index t < MAX_BUCKETS"
    using inv by (simp_all add: table_inv_def)
  show ?thesis
    unfolding no_null_slot_def
  proof (intro allI impI)
    fix i c j
    assume i: "i \<le> table.index t'" and c: "buckets t' ! i = Some c" and j: "j < length (svec c)"
    from S have ix: "table.index t' = table.index t" by simp
    show "svec c ! j \<noteq> None"
    proof (cases "i = table.index t")
      case True
      with S c L have "c = b\<lparr>svec := (svec b)[bucket.index b :=
                      Some (take (nat (dims t)) v @ replicate (nat (dims_aligned t - dims t)) 0)],
                    bucket.index := bucket.index b + 1\<rparr>" by simp
      moreover have "svec b ! j \<noteq> None" if "j < length (svec b)"
        using nn b that unfolding no_null_slot_def by blast
      ultimately show ?thesis using j S by (auto simp: nth_list_update)
    next
      case False
      with S c L i have "buckets t ! i = Some c" by (simp add: nth_list_update)
      with nn i ix j show ?thesis unfolding no_null_slot_def by auto
    qed
  qed
qed

lemma insert_succeeds:
  fixes t :: "('a::zero, 's) table"
  assumes inv: "table_inv t k" and nn: "no_null_slot t" and k: "k < MAX_BUCKETS * svec_size t"
    and d: "0 \<le> dims t" "nat (dims t) \<le> length v"
  shows "\<exists>r t'. insert_vector (True, True, True) t v = Inr (r, t') \<and> r \<noteq> - 1
           \<and> table_inv t' (Suc k) \<and> no_null_slot t'"
proof -
  from inv obtain b where b: "buckets t ! table.index t = Some b"
    and kk: "k = table.index t * svec_size t + bucket.index b"
    and le: "bucket.index b \<le> svec_size t" and len: "length (svec b) = svec_size t"
    by (rule table_inv_cur)
  have I: "table.index t < MAX_BUCKETS" and nz: "(dims_aligned t * 4) mod 2 ^ 64 \<noteq> 0"
    and sz: "svec_size t = SVEC_SIZE (dims_aligned t)"
    using inv by (simp_all add: table_inv_def)
  have pos: "0 < svec_size t" using k by (cases "svec_size t") auto
  show ?thesis
  proof (cases "bucket.index b < svec_size t")
    case True
    have "svec b ! bucket.index b \<noteq> None"
      using nn b True len unfolding no_null_slot_def by auto
    from store_vector_ok[OF _ this d] True len
    obtain t' where st: "store_vector t b v = Inr (slot_id (table.index t) (bucket.index b), t')"
      by auto
    have ins: "insert_vector (True, True, True) t v = Inr (slot_id (table.index t) (bucket.index b), t')"
      using b True st by (simp add: insert_vector_def)
    from store_current_inv[OF inv b st] no_null_slot_store[OF nn inv b st] ins
    show ?thesis by auto
  next
    case False
    with le have h: "bucket.index b = svec_size t" by simp
    have "Suc (table.index t) * svec_size t \<le> k" using kk h by simp
    with k have "Suc (table.index t) * svec_size t < MAX_BUCKETS * svec_size t" by simp
    then have room: "table.index t + 1 < MAX_BUCKETS"
      by (metis mult_less_cancel2 Suc_eq_plus1)
    let ?bn = "\<lparr>bucket.index = 0, svec = replicate (svec_size t) (Some (replicate (nat (dims_aligned t)) (0::'a)))\<rparr>"
    let ?t1 = "t\<lparr>table.index := table.index t + 1,
            buckets := (buckets t)[table.index t + 1 := Some ?bn]\<rparr>"
    have al: "alloc_bucket (True, True, True) (dims_aligned t) = Inr (Some ?bn)"
      using nz sz by (simp add: alloc_bucket_def Let_def)
    have "\<exists>t'. store_vector ?t1 ?bn v = Inr (slot_id (table.index ?t1) (bucket.index ?bn), t')"
      by (rule store_vector_ok) (use pos d in simp_all)
    then obtain t' where st: "store_vector ?t1 ?bn v = Inr (slot_id (table.index t + 1) 0, t')"
      by auto
    have ins: "insert_vector (True, True, True) t v = Inr (slot_id (table.index t + 1) 0, t')"
      using b h room al st by (simp add: insert_vector_def)
    from insert_vector_inv[OF inv ins] slot_id_nonneg[of "table.index t + 1" 0] room
    have r: "slot_id (table.index t + 1) 0 \<noteq> - 1" and inv': "table_inv t' (Suc k)"
      by (auto simp: MAX_BUCKETS_def)
    have L: "length (buckets t) = MAX_BUCKETS" using inv by (simp add: table_inv_def)
    note S = store_vector_Inr[OF st]
    have "no_null_slot t'"
      unfolding no_null_slot_def
    proof (intro allI impI)
      fix i c j
      assume i: "i \<le> table.index t'" and c: "buckets t' ! i = Some c" and j: "j < length (svec c)"
      show "svec c ! j \<noteq> None"
      proof (cases "i = table.index t + 1")
        case True
        with S c L room have "c = ?bn\<lparr>svec := (svec ?bn)[bucket.index ?bn :=
                      Some (take (nat (dims ?t1)) v @ replicate (nat (dims_aligned ?t1 - dims ?t1)) 0)],
                    bucket.index := bucket.index ?bn + 1\<rparr>" by simp
        then show ?thesis using j by (simp add: nth_list_update)
      next
        case False
        with S i have i': "i \<le> table.index t" by simp
        with S c L room False have "buckets t ! i = Some c" by (simp add: nth_list_update)
        with nn i' j show ?thesis unfolding no_null_slot_def by auto
      qed
    qed
    with ins r inv' show ?thesis by auto
  qed
qed

lemma three_mask: "(3::int) = mask 2"
  by (simp add: mask_eq_exp_minus_1)

lemma ALIGN_DIMS_div: "ALIGN_DIMS d = (d + 3) div 4 * 4"
proof -
  have s: "\<And>n. 2 \<le> n \<Longrightarrow> Suc (Suc (n - 2)) = n" by simp
  have "(d + 3) AND NOT (mask 2) = push_bit 2 (drop_bit 2 (d + 3))"
    by (auto simp: bit_eq_iff bit_simps s not_less)
  then show ?thesis
    by (simp add: ALIGN_DIMS_def three_mask push_bit_eq_mult drop_bit_eq_div)
qed

lemma SVEC_SIZE_formula:
  assumes "0 < d" "d + 3 < 2 ^ 31"
  shows "SVEC_SIZE (ALIGN_DIMS d) = STORE_SIZE div (nat (ALIGN_DIMS d) * 4)"
proof -
  have "0 \<le> ALIGN_DIMS d" "ALIGN_DIMS d \<le> d + 3"
    using assms unfolding ALIGN_DIMS_div by simp_all
  then have "0 \<le> ALIGN_DIMS d * 4" "ALIGN_DIMS d * 4 < 2 ^ 64" using assms by simp_all
  then have "(ALIGN_DIMS d * 4) mod 2 ^ 64 = ALIGN_DIMS d * 4" by simp
  then show ?thesis using \<open>0 \<le> ALIGN_DIMS d\<close> by (simp add: SVEC_SIZE_def nat_mult_distrib)
qed

lemma run_inserts:
  fixes t :: "('a::zero, 's) table"
  assumes "table_inv t k" "no_null_slot t" "k + length vs \<le> MAX_BUCKETS * svec_size t"
    "0 \<le> dims t" "\<forall>v\<in>set vs. nat (dims t) \<le> length v"
  shows "\<exists>t'. run t k (map (Insert (True, True, True)) vs) = Inr (t', k + length vs)
           \<and> table_inv t' (k + length vs) \<and> same_conf t t'"
  using assms
proof (induction vs arbitrary: t k)
  case Nil
  then show ?case by (simp add: same_conf_refl)
next
  case (Cons v vs)
  from Cons.prems have k: "k < MAX_BUCKETS * svec_size t" and v: "nat (dims t) \<le> length v" by simp_all
  from insert_succeeds[OF Cons.prems(1,2) k Cons.prems(4) v]
  obtain r t1 where ins: "insert_vector (True, True, True) t v = Inr (r, t1)" and r: "r \<noteq> - 1"
    and inv1: "table_inv t1 (Suc k)" and nn1: "no_null_slot t1" by blast
  note sc = insert_vector_conf[OF ins]
  then have eq: "dims t1 = dims t" "svec_size t1 = svec_size t" by (simp_all add: same_conf_def)
  have "\<exists>t'. run t1 (Suc k) (map (Insert (True, True, True)) vs) = Inr (t', Suc k + length vs)
           \<and> table_inv t' (Suc k + length vs) \<and> same_conf t1 t'"
    by (rule Cons.IH[OF inv1 nn1]) (use Cons.prems eq in simp_all)
  then obtain t' where "run t1 (Suc k) (map (Insert (True, True, True)) vs) = Inr (t', Suc k + length vs)"
    "table_inv t' (Suc k + length vs)" "same_conf t1 t'" by blast
  then show ?case using ins r sc by (auto intro: same_conf_trans)
qed

lemma insert_at_capacity:
  assumes inv: "table_inv t (MAX_BUCKETS * svec_size t)" and pos: "0 < svec_size t"
  shows "insert_vector mem t v = Inr (- 1, t)"
proof -
  from inv obtain b where b: "buckets t ! table.index t = Some b"
    and kk: "MAX_BUCKETS * svec_size t = table.index t * svec_size t + bucket.index b"
    and le: "bucket.index b \<le> svec_size t" by (rule table_inv_cur)
  have I: "table.index t < MAX_BUCKETS" using inv by (simp add: table_inv_def)
  have full: "\<not> table.index t + 1 < MAX_BUCKETS"
  proof
    assume "table.index t + 1 < MAX_BUCKETS"
    then have "table.index t + 2 \<le> MAX_BUCKETS" by simp
    then have "(table.index t + 2) * svec_size t \<le> MAX_BUCKETS * svec_size t" by (rule mult_le_mono1)
    with kk le pos show False by (simp add: algebra_simps)
  qed
  from full I have eq: "MAX_BUCKETS = table.index t + 1" by simp
  have "svec_size t \<le> bucket.index b" using kk unfolding eq by simp
  then show ?thesis using full by (rule insert_fails_capacity[OF b])
qed


text \<open>
  Claim C3. For a table opened with dimension \<open>D > 0\<close> whose buckets have
  \<open>N = STORE_SIZE div (D' * 4) > 0\<close> slots, with every allocation succeeding and vectors of at
  least \<open>D\<close> floats: \<open>MAX_BUCKETS * N\<close> consecutive inserts all succeed, and on the table they
  leave every further insert returns \<open>-1\<close> and changes nothing, whatever the allocator does.
\<close>

theorem capacity_exact:
  assumes "victor_table True all_ok d mode = Inr (Some t0)"
    and "0 < d" and "0 < SVEC_SIZE (ALIGN_DIMS d)"
    and "length vs = MAX_BUCKETS * SVEC_SIZE (ALIGN_DIMS d)"
    and "\<forall>v\<in>set vs. nat d \<le> length v"
  shows "SVEC_SIZE (ALIGN_DIMS d) = STORE_SIZE div (nat (ALIGN_DIMS d) * 4)
       \<and> (\<exists>t. run t0 0 (map (Insert all_ok) vs) = Inr (t, MAX_BUCKETS * SVEC_SIZE (ALIGN_DIMS d))
              \<and> (\<forall>mem v. insert_vector mem t v = Inr (- 1, t)))"
proof -
  note V = victor_table_inv[OF assms(1)]
  have N: "svec_size t0 = SVEC_SIZE (ALIGN_DIMS d)"
    using V(1,2) by (simp add: table_inv_def table_conf_def V(4))
  have "d + 3 < 2 ^ 31" using V(2) by (simp add: table_conf_def V(4))
  then have f: "SVEC_SIZE (ALIGN_DIMS d) = STORE_SIZE div (nat (ALIGN_DIMS d) * 4)"
    by (rule SVEC_SIZE_formula[OF assms(2)])
  have "\<exists>t'. run t0 0 (map (Insert (True, True, True)) vs) = Inr (t', 0 + length vs)
           \<and> table_inv t' (0 + length vs) \<and> same_conf t0 t'"
    by (rule run_inserts[OF V(1) V(3)]) (use assms N V(4) in simp_all)
  then obtain t where r: "run t0 0 (map (Insert all_ok) vs) = Inr (t, length vs)"
    and inv: "table_inv t (length vs)" and sc: "same_conf t0 t"
    by (auto simp: all_ok_def)
  have N': "svec_size t = SVEC_SIZE (ALIGN_DIMS d)" using sc N by (simp add: same_conf_def)
  have "insert_vector mem t v = Inr (- 1, t)" for mem v
    by (rule insert_at_capacity) (use inv N' assms in simp_all)
  with r f show ?thesis using assms(4) by auto
qed

section \<open>Instances\<close>

lemma fresh1_eq: "victor_table True all_ok 262144 L2NORM = Inr (Some fresh1)"
  by (simp add: fresh1_def ex_defs)

lemma SVEC_SIZE_4: "SVEC_SIZE (ALIGN_DIMS 4) = 65536"
  by (simp add: SVEC_SIZE_def ALIGN_DIMS_def STORE_SIZE_def)

theorem capacity_exact_witness:
  "victor_table True all_ok 4 L2NORM = Inr (Some fresh4) \<and> (0::int) < 4
   \<and> 0 < SVEC_SIZE (ALIGN_DIMS 4)
   \<and> length (replicate 8388608 [0::real, 0, 0, 0]) = MAX_BUCKETS * SVEC_SIZE (ALIGN_DIMS 4)
   \<and> (\<exists>t. run fresh4 0 (map (Insert all_ok) (replicate 8388608 [0, 0, 0, 0]))
               = Inr (t, MAX_BUCKETS * SVEC_SIZE (ALIGN_DIMS 4))
          \<and> insert_vector all_ok t [0, 0, 0, 0] = Inr (- 1, t))"
proof -
  have h2: "(0::int) < 4" by simp
  have h3: "0 < SVEC_SIZE (ALIGN_DIMS 4)" by (simp add: SVEC_SIZE_4)
  have h4: "length (replicate 8388608 [0::real, 0, 0, 0]) = MAX_BUCKETS * SVEC_SIZE (ALIGN_DIMS 4)"
    by (simp add: SVEC_SIZE_4 MAX_BUCKETS_def)
  have h5: "\<forall>v\<in>set (replicate 8388608 [0::real, 0, 0, 0]). nat 4 \<le> length v" by simp
  from capacity_exact [OF fresh4_eq h2 h3 h4 h5] fresh4_eq h2 h3 h4
  show ?thesis by blast
qed

lemma run_full1:
  "run fresh1 0 [Insert all_ok (replicate 262144 0)] = Inr (after fresh1 [Insert all_ok (replicate 262144 0)], 1)"
  by (simp add: after_def fresh1_def ex_defs)

theorem insert_failure_keeps_table_witness:
  "victor_table True all_ok 262144 L2NORM = Inr (Some fresh1)
   \<and> run fresh1 0 [Insert all_ok (replicate 262144 0)]
        = Inr (after fresh1 [Insert all_ok (replicate 262144 0)], 1)
   \<and> insert_vector (True, False, True) (after fresh1 [Insert all_ok (replicate 262144 0)])
        (replicate 262144 0)
        = Inr (- 1, after fresh1 [Insert all_ok (replicate 262144 0)])"
proof -
  let ?t = "after fresh1 [Insert all_ok (replicate 262144 0)]"
  from insert_failure_keeps_table [OF fresh1_eq run_full1, of True False True "replicate 262144 0"]
  obtain b where b: "buckets ?t ! table.index ?t = Some b"
    and oom: "svec_size ?t \<le> bucket.index b \<and> table.index ?t + 1 < MAX_BUCKETS \<and> \<not> (True \<and> False \<and> True)
            \<longrightarrow> insert_vector (True, False, True) ?t (replicate 262144 0) = Inr (- 1, ?t)"
    by blast
  have "bucket.index b = 1" "svec_size ?t = 1" "table.index ?t = 0"
    using b by (auto simp: after_def fresh1_def ex_defs)
  with oom have "insert_vector (True, False, True) ?t (replicate 262144 0) = Inr (- 1, ?t)"
    by (simp add: MAX_BUCKETS_def)
  with fresh1_eq run_full1 show ?thesis by simp
qed

lemma insert_second4:
  "insert_vector all_ok (after fresh4 [Insert all_ok [2, 0, 0, 0]]) [1, 0, 0, 0]
     = Inr (1, after fresh4 [Insert all_ok [2, 0, 0, 0], Insert all_ok [1, 0, 0, 0]])"
  by (simp add: after_def fresh4_def ex_defs)

theorem inserted_id_nonnegative_witness:
  "victor_table True all_ok 4 L2NORM = Inr (Some fresh4)
   \<and> run fresh4 0 [Insert all_ok [2, 0, 0, 0]] = Inr (after fresh4 [Insert all_ok [2, 0, 0, 0]], 1)
   \<and> insert_vector all_ok (after fresh4 [Insert all_ok [2, 0, 0, 0]]) [1, 0, 0, 0]
        = Inr (1, after fresh4 [Insert all_ok [2, 0, 0, 0], Insert all_ok [1, 0, 0, 0]])
   \<and> (0::int) \<le> 1
   \<and> table.index (after fresh4 [Insert all_ok [2, 0, 0, 0]]) \<le> 127"
  using inserted_id_nonnegative [OF fresh4_eq run_one4] fresh4_eq run_one4 insert_second4
  by simp

section \<open>The top-N scan\<close>

lemma shift_loop_length: "length (shift_loop R base m) = length R"
  by (induction m arbitrary: R) simp_all

lemma shift_loop_nth:
  "base + m < length R \<Longrightarrow> j < length R \<Longrightarrow>
     shift_loop R base m ! j = (if base < j \<and> j \<le> base + m then R ! (j - 1) else R ! j)"
proof (induction m arbitrary: R)
  case 0
  then show ?case by auto
next
  case (Suc m)
  let ?R1 = "R[base + Suc m := R ! (base + m)]"
  have "shift_loop ?R1 base m ! j = (if base < j \<and> j \<le> base + m then ?R1 ! (j - 1) else ?R1 ! j)"
    by (rule Suc.IH) (use Suc.prems in simp_all)
  then show ?case using Suc.prems by (auto simp: nth_list_update)
qed

lemma shift_right_mr_length: "length (shift_right_mr R k len) = length R"
  by (simp add: shift_right_mr_def shift_loop_length)

lemma shift_right_mr_nth:
  assumes "k < n" "length R = n" "j < n"
  shows "shift_right_mr R k (n - k - 1) ! j = (if k < j \<and> j + 1 < n then R ! (j - 1) else R ! j)"
proof -
  have "k + (n - k - 1 - 1) < length R" using assms by simp
  from shift_loop_nth[OF this, of j] assms show ?thesis
    by (auto simp: shift_right_mr_def)
qed

lemma place_nth:
  assumes "k < n" "length R = n" "x < n"
  shows "(shift_right_mr R k (n - k - 1))[k := new] ! x =
           (if x = k then new else if k < x \<and> x + 1 < n then R ! (x - 1) else R ! x)"
  using assms shift_right_mr_nth[OF assms]
  by (simp add: nth_list_update shift_right_mr_length)

lemma place_best_first:
  assumes irr: "\<And>x. \<not> better x x" and tr: "\<And>x y z. better x y \<Longrightarrow> better y z \<Longrightarrow> better x z"
    and bf: "best_first better R" and len: "length R = n" and k: "k < n"
    and before: "\<forall>i<k. \<not> better tmp (distance (R ! i))" and hit: "better tmp (distance (R ! k))"
  shows "best_first better ((shift_right_mr R k (n - k - 1))[k := \<lparr>mid = ident, distance = tmp\<rparr>])"
    (is "best_first better ?R'")
  unfolding best_first_def
proof (intro allI impI)
  fix i j
  assume ij: "i < j" and j: "j < length ?R'"
  have n: "length ?R' = n" using len by (simp add: shift_right_mr_length)
  with j ij have jn: "j < n" and "i < n" by simp_all
  define idx where "idx x = (if k < x \<and> x + 1 < n then x - 1 else x)" for x
  have nth: "?R' ! x = (if x = k then \<lparr>mid = ident, distance = tmp\<rparr> else R ! idx x)" if "x < n" for x
    using place_nth[OF k len that] by (simp add: idx_def)
  have old: "\<not> better (distance (R ! b)) (distance (R ! a))" if "a < b" "b < n" for a b
    using bf that len unfolding best_first_def by simp
  show "\<not> better (distance (?R' ! j)) (distance (?R' ! i))"
  proof (cases "j = k")
    case True
    with ij have "i < k" by simp
    then have "idx i = i" "i \<noteq> k" by (simp_all add: idx_def)
    then show ?thesis using nth[OF \<open>i < n\<close>] nth[OF jn] True before \<open>i < k\<close> by simp
  next
    case jk: False
    show ?thesis
    proof (cases "i = k")
      case True
      with ij have "k < j" by simp
      then have ge: "k \<le> idx j" and lt: "idx j < n" using jn by (auto simp: idx_def)
      have "\<not> better (distance (R ! idx j)) tmp"
      proof
        assume "better (distance (R ! idx j)) tmp"
        from tr[OF this hit] have b: "better (distance (R ! idx j)) (distance (R ! k))" .
        show False
        proof (cases "idx j = k")
          case True
          with b irr show False by simp
        next
          case False
          with ge have "k < idx j" by simp
          from old[OF this lt] b show False by simp
        qed
      qed
      then show ?thesis using nth[OF \<open>i < n\<close>] nth[OF jn] True jk by simp
    next
      case False
      have "idx i < idx j" using ij jn jk False by (auto simp: idx_def)
      moreover have "idx j < n" using jn by (auto simp: idx_def)
      ultimately have "\<not> better (distance (R ! idx j)) (distance (R ! idx i))" by (rule old)
      then show ?thesis using nth[OF \<open>i < n\<close>] nth[OF jn] False jk by simp
    qed
  qed
qed

lemma k_loop_length: "length R = n \<Longrightarrow> length (k_loop better tmp ident n k R) = n"
proof (induction better tmp ident n k R rule: k_loop.induct)
  case (1 better tmp ident n k R)
  show ?case
    by (subst k_loop.simps) (use 1 in \<open>auto simp: shift_right_mr_length\<close>)
qed

lemma k_loop_best_first:
  "(\<And>x. \<not> better x x) \<Longrightarrow> (\<And>x y z. better x y \<Longrightarrow> better y z \<Longrightarrow> better x z)
     \<Longrightarrow> best_first better R \<Longrightarrow> length R = n \<Longrightarrow> \<forall>i<k. \<not> better tmp (distance (R ! i))
     \<Longrightarrow> best_first better (k_loop better tmp ident n k R)"
proof (induction better tmp ident n k R rule: k_loop.induct)
  case (1 better tmp ident n k R)
  note irr = "1.prems"(1) and tr = "1.prems"(2) and bf = "1.prems"(3) and len = "1.prems"(4)
    and before = "1.prems"(5)
  show ?case
  proof (cases "k < n")
    case False
    then show ?thesis using bf by (subst k_loop.simps) simp
  next
    case True
    show ?thesis
    proof (cases "better tmp (distance (R ! k))")
      case hit: True
      have "best_first better ((shift_right_mr R k (n - k - 1))[k := \<lparr>mid = ident, distance = tmp\<rparr>])"
        using irr tr bf len True before hit by (rule place_best_first)
      then show ?thesis using True hit by (subst k_loop.simps) simp
    next
      case miss: False
      have "\<forall>i<Suc k. \<not> better tmp (distance (R ! i))"
        using before miss by (auto simp: less_Suc_eq)
      with True miss irr tr bf len have "best_first better (k_loop better tmp ident n (Suc k) R)"
        by (intro "1.IH") auto
      then show ?thesis using True miss by (subst k_loop.simps) simp
    qed
  qed
qed

lemma fold_invariant:
  "(\<And>x acc. P acc \<Longrightarrow> P (f x acc)) \<Longrightarrow> P acc \<Longrightarrow> P (fold f xs acc)"
  by (induction xs arbitrary: acc) simp_all

lemma k_loop_keeps_prefix:
  "length R = n \<Longrightarrow> j < n \<Longrightarrow> \<forall>i\<le>j. \<not> better tmp (distance (R ! i))
     \<Longrightarrow> k_loop better tmp ident n k R ! j = R ! j"
proof (induction better tmp ident n k R rule: k_loop.induct)
  case (1 better tmp ident n k R)
  show ?case
  proof (cases "k < n \<and> better tmp (distance (R ! k))")
    case True
    with "1.prems"(3) have "j < k" by (meson not_le)
    then have "(shift_right_mr R k (n - k - 1))[k := \<lparr>mid = ident, distance = tmp\<rparr>] ! j = R ! j"
      using place_nth[of k n R j] True "1.prems"(1,2) by simp
    then show ?thesis using True by (subst k_loop.simps) simp
  next
    case False
    show ?thesis
    proof (cases "k < n")
      case True
      with False have miss: "\<not> better tmp (distance (R ! k))" by simp
      from "1.IH"[OF True miss "1.prems"]
      show ?thesis using True miss by (subst k_loop.simps) simp
    next
      case False
      then show ?thesis by (subst k_loop.simps) simp
    qed
  qed
qed

lemma replicate_best_first: "(\<And>x. \<not> better x x) \<Longrightarrow> best_first better (replicate n r)"
  by (simp add: best_first_def)

lemma fold_k_loop_best_first:
  assumes irr: "\<And>x. \<not> better x x"
    and tr: "\<And>x y z. better x y \<Longrightarrow> better y z \<Longrightarrow> better x z"
  shows "best_first better acc \<Longrightarrow> length acc = n \<Longrightarrow>
     best_first better (fold (\<lambda>(i, j, v) result. k_loop better (score v) (slot_id i j) n 0 result) xs acc)
     \<and> length (fold (\<lambda>(i, j, v) result. k_loop better (score v) (slot_id i j) n 0 result) xs acc) = n"
proof (induction xs arbitrary: acc)
  case Nil
  then show ?case by simp
next
  case (Cons x xs)
  obtain i j v where x: "x = (i, j, v)" by (cases x)
  have none: "\<forall>i<0::nat. \<not> better (score v) (distance (acc ! i))" by simp
  have "best_first better (k_loop better (score v) (slot_id i j) n 0 acc)"
    using irr tr Cons.prems none by (rule k_loop_best_first)
  moreover have "length (k_loop better (score v) (slot_id i j) n 0 acc) = n"
    using Cons.prems(2) by (rule k_loop_length)
  ultimately show ?case using Cons.IH by (simp add: x)
qed

lemma search_n_result:
  assumes irr: "\<And>x. \<not> is_better_match t x x"
    and tr: "\<And>x y z. is_better_match t x y \<Longrightarrow> is_better_match t y z \<Longrightarrow> is_better_match t x z"
  shows "\<exists>R. search_better_n_match True t q n = (0, Some R) \<and> length R = nat n
           \<and> best_first (is_better_match t) R"
proof -
  let ?init = "replicate (nat n) \<lparr>mid = - 1, distance = worst_match_value t\<rparr>"
  have "best_first (is_better_match t) ?init"
    by (rule replicate_best_first) (rule irr)
  moreover have "length ?init = nat n" by simp
  ultimately show ?thesis
    using fold_k_loop_best_first[of "is_better_match t" ?init "nat n"
        "\<lambda>v. compare_vectors t v q (dims_aligned t)" "live_slots t", OF irr tr]
    by (simp add: search_better_n_match_def scan_table_live Let_def)
qed

text \<open>
  Whenever the comparator of the table is irreflexive and transitive, as \<open><\<close> and
  \<open>>\<close> are, the array \<open>search_better_n_match\<close> returns is best-first: no entry is
  strictly better than an entry before it, in particular entry \<open>k + 1\<close> is never better
  than entry \<open>k\<close>. The short shift of \<open>shift_right_mr\<close> drops entries but keeps the
  order.
\<close>

lemma search_n_best_first:
  assumes "irreflp (is_better_match t)" and "transp (is_better_match t)"
  shows "\<exists>R. search_better_n_match True t q n = (0, Some R) \<and> length R = nat n
            \<and> (\<forall>k. Suc k < length R \<longrightarrow>
                  \<not> is_better_match t (distance (R ! Suc k)) (distance (R ! k)))
            \<and> best_first (is_better_match t) R"
proof -
  have irr: "\<not> is_better_match t x x" for x
    using assms(1) by (simp add: irreflp_def)
  have tr: "is_better_match t x z" if "is_better_match t x y" "is_better_match t y z" for x y z
    using assms(2) that by (meson transpD)
  have "\<exists>R. search_better_n_match True t q n = (0, Some R) \<and> length R = nat n
           \<and> best_first (is_better_match t) R"
    by (rule search_n_result[OF irr]) (rule tr)
  then obtain R where R: "search_better_n_match True t q n = (0, Some R)" "length R = nat n"
    "best_first (is_better_match t) R" by blast
  have adj: "\<not> is_better_match t (distance (R ! Suc k)) (distance (R ! k))" if "Suc k < length R" for k
    using R(3) that unfolding best_first_def by simp
  show ?thesis using R adj by blast
qed

lemma two4_val:
  "two4 = \<lparr>dims = 4, dims_aligned = 4, svec_size = 65536, cmpmode = 1,
             worst_match_value = Infinity, table.index = 0,
             is_better_match = euclidean_distance_best,
             compare_vectors = euclidean_distance,
             buckets = (replicate 128 None)
               [0 := Some \<lparr>bucket.index = 2,
                    svec = (replicate 65536 (Some (replicate 4 0)))
                           [0 := Some [2, 0, 0, 0], 1 := Some [1, 0, 0, 0]]\<rparr>]\<rparr>"
  by (simp add: two4_def after_def fresh4_def ex_defs numeral_2_eq_2)

lemma upt_4: "[0..<4] = [0, 1, 2, 3]"
  by code_simp

lemma euclidean_distance_4:
  "euclidean_distance [a0, a1, a2, a3] [b0, b1, b2, b3] 4
     = Finite ((a0 - b0)\<^sup>2 + (a1 - b1)\<^sup>2 + (a2 - b2)\<^sup>2 + (a3 - b3)\<^sup>2)"
  by (simp add: euclidean_distance_def upt_4)

lemma search_n_two4:
  "search_better_n_match True two4 [0, 0, 0, 0] 2
     = (0, Some [\<lparr>mid = 1, distance = Finite 1\<rparr>, \<lparr>mid = - 1, distance = Infinity\<rparr>])"
  unfolding two4_val
  by (simp add: search_better_n_match_def scan_table_def scan_bucket_def Let_def k_loop.simps
      shift_right_mr_def euclidean_distance_4 euclidean_distance_best_def slot_id_def
      encode_vector_id_def numeral_2_eq_2)

lemma score_less_irrefl: "\<not> score_less x x"
  by (cases x) simp_all

lemma score_less_trans: "score_less x y \<Longrightarrow> score_less y z \<Longrightarrow> score_less x z"
  by (cases x; cases y; cases z) simp_all

lemma euclidean_best_order: "irreflp euclidean_distance_best" "transp euclidean_distance_best"
  unfolding irreflp_def transp_def euclidean_distance_best_def
  using score_less_irrefl score_less_trans by blast+

lemma cosine_best_order: "irreflp cosine_similarity_best" "transp cosine_similarity_best"
  unfolding irreflp_def transp_def cosine_similarity_best_def
  using score_less_irrefl score_less_trans by blast+

lemma two4_better: "is_better_match two4 = euclidean_distance_best"
  by (simp add: two4_val)

lemma live_slots_two4: "live_slots two4 = [(0, 0, [2, 0, 0, 0]), (0, 1, [1, 0, 0, 0])]"
  unfolding two4_val
  by (simp add: live_slots_def scan_table_def scan_bucket_def numeral_2_eq_2)

lemma spec_search_n_two4:
  "spec_search_n two4 [0, 0, 0, 0] 2
     = [\<lparr>mid = 1, distance = Finite 1\<rparr>, \<lparr>mid = 0, distance = Finite 4\<rparr>]"
  unfolding spec_search_n_def live_slots_two4
  by (simp add: two4_val spec_top_n_def euclidean_distance_4 euclidean_distance_best_def slot_id_def
      encode_vector_id_def numeral_2_eq_2)

text \<open>
  Claim C1, at a failing input. The table holds \<open>[2,0,0,0]\<close> (id 0) and \<open>[1,0,0,0]\<close>
  (id 1); the query is \<open>[0,0,0,0]\<close> and \<open>n = 2\<close>. The two best live entries are
  \<open>(1, 1)\<close> and \<open>(0, 4)\<close>, but the scan returns \<open>(1, 1)\<close> and \<open>(-1, INFINITY)\<close>:
  \<open>shift_right_mr\<close> is called with the length \<open>n - k - 1\<close>, so it moves \<open>R[k..n-3]\<close> only, and
  the entry pushed out of \<open>R[n-2]\<close> is lost instead of overwriting \<open>R[n-1]\<close>.
\<close>

theorem search_n_loses_second_best:
  "search_better_n_match True two4 [0, 0, 0, 0] 2
     = (0, Some [\<lparr>mid = 1, distance = Finite 1\<rparr>, \<lparr>mid = - 1, distance = Infinity\<rparr>])
   \<and> spec_search_n two4 [0, 0, 0, 0] 2
     = [\<lparr>mid = 1, distance = Finite 1\<rparr>, \<lparr>mid = 0, distance = Finite 4\<rparr>]
   \<and> k_loop euclidean_distance_best (Finite 1) 1 2 0
        [\<lparr>mid = 0, distance = Finite 4\<rparr>, \<lparr>mid = - 1, distance = Infinity\<rparr>]
     = [\<lparr>mid = 1, distance = Finite 1\<rparr>, \<lparr>mid = - 1, distance = Infinity\<rparr>]"
  using search_n_two4 spec_search_n_two4
  by (simp add: k_loop.simps shift_right_mr_def euclidean_distance_best_def)

lemma three4_val:
  "three4 = \<lparr>dims = 4, dims_aligned = 4, svec_size = 65536, cmpmode = 1,
             worst_match_value = Infinity, table.index = 0,
             is_better_match = euclidean_distance_best,
             compare_vectors = euclidean_distance,
             buckets = (replicate 128 None)
               [0 := Some \<lparr>bucket.index = 3,
                    svec = (replicate 65536 (Some (replicate 4 0)))
                           [0 := Some [2, 0, 0, 0], 1 := Some [0, 2, 0, 0],
                            2 := Some [1, 0, 0, 0]]\<rparr>]\<rparr>"
  by (simp add: three4_def after_def fresh4_def ex_defs numeral_2_eq_2 numeral_3_eq_3)

lemma upt_3: "[0..<3] = [0, 1, 2]"
  by code_simp

lemma search_n_three4:
  "search_better_n_match True three4 [0, 0, 0, 0] 2
     = (0, Some [\<lparr>mid = 2, distance = Finite 1\<rparr>, \<lparr>mid = 1, distance = Finite 4\<rparr>])"
  unfolding three4_val
  by (simp add: search_better_n_match_def scan_table_def scan_bucket_def Let_def k_loop.simps
      shift_right_mr_def euclidean_distance_4 euclidean_distance_best_def slot_id_def
      encode_vector_id_def numeral_2_eq_2 upt_3)

lemma live_slots_three4:
  "live_slots three4 = [(0, 0, [2, 0, 0, 0]), (0, 1, [0, 2, 0, 0]), (0, 2, [1, 0, 0, 0])]"
  unfolding three4_val
  by (simp add: live_slots_def scan_table_def scan_bucket_def numeral_2_eq_2 upt_3)

lemma spec_search_n_three4:
  "spec_search_n three4 [0, 0, 0, 0] 2
     = [\<lparr>mid = 2, distance = Finite 1\<rparr>, \<lparr>mid = 0, distance = Finite 4\<rparr>]"
  unfolding spec_search_n_def live_slots_three4
  by (simp add: three4_val spec_top_n_def euclidean_distance_4 euclidean_distance_best_def slot_id_def
      encode_vector_id_def numeral_2_eq_2)

text \<open>
  Claim C6, at a failing input. The table holds \<open>[2,0,0,0]\<close> (id 0), \<open>[0,2,0,0]\<close>
  (id 1) and \<open>[1,0,0,0]\<close> (id 2); the query is \<open>[0,0,0,0]\<close> and \<open>n = 2\<close>. Ids 0 and 1
  tie at distance 4. When id 1 is scanned the strict comparison leaves id 0 ahead of it,
  and the array is \<open>(0, 4), (1, 4)\<close>. When id 2 then arrives at position 0,
  \<open>shift_right_mr(&R[0], 1)\<close> moves nothing, so id 0 is overwritten and the later of the
  two tied candidates stays: the scan returns \<open>(2, 1), (1, 4)\<close>, where the earlier-inserted
  candidate keeping its position gives \<open>(2, 1), (0, 4)\<close>.
\<close>

theorem search_n_drops_earlier_tie:
  "search_better_n_match True three4 [0, 0, 0, 0] 2
     = (0, Some [\<lparr>mid = 2, distance = Finite 1\<rparr>, \<lparr>mid = 1, distance = Finite 4\<rparr>])
   \<and> spec_search_n three4 [0, 0, 0, 0] 2
     = [\<lparr>mid = 2, distance = Finite 1\<rparr>, \<lparr>mid = 0, distance = Finite 4\<rparr>]
   \<and> k_loop euclidean_distance_best (Finite 4) 1 2 0
        [\<lparr>mid = 0, distance = Finite 4\<rparr>, \<lparr>mid = - 1, distance = Infinity\<rparr>]
     = [\<lparr>mid = 0, distance = Finite 4\<rparr>, \<lparr>mid = 1, distance = Finite 4\<rparr>]
   \<and> k_loop euclidean_distance_best (Finite 1) 2 2 0
        [\<lparr>mid = 0, distance = Finite 4\<rparr>, \<lparr>mid = 1, distance = Finite 4\<rparr>]
     = [\<lparr>mid = 2, distance = Finite 1\<rparr>, \<lparr>mid = 1, distance = Finite 4\<rparr>]"
  using search_n_three4 spec_search_n_three4
  by (simp add: k_loop.simps shift_right_mr_def euclidean_distance_best_def)

section \<open>Insert, then search\<close>

lemma slots_of_bucket_cong:
  "(\<And>j. j \<in> set js \<Longrightarrow> svec b ! j = svec b' ! j) \<Longrightarrow> slots_of_bucket i b js = slots_of_bucket i b' js"
  unfolding slots_of_bucket_def by (intro arg_cong[where f = concat] map_cong) simp_all

lemma slots_of_table_cong:
  "(\<And>i. i \<in> set is \<Longrightarrow> buckets t ! i = buckets t' ! i) \<Longrightarrow> slots_of_table t is = slots_of_table t' is"
  unfolding slots_of_table_def by (intro arg_cong[where f = concat] map_cong) simp_all

lemma slots_of_bucket_snoc:
  "slots_of_bucket i b (js @ [j]) =
     slots_of_bucket i b js @ (case svec b ! j of None \<Rightarrow> [] | Some v \<Rightarrow> [(i, j, v)])"
  by (simp add: slots_of_bucket_def)

lemma slots_of_table_snoc:
  "slots_of_table t (is @ [i]) =
     slots_of_table t is @ (case buckets t ! i of None \<Rightarrow> []
        | Some b \<Rightarrow> slots_of_bucket i b [0..<bucket.index b])"
  by (simp add: slots_of_table_def)

lemma live_slots_store:
  assumes L: "length (buckets t) = MAX_BUCKETS" "table.index t < MAX_BUCKETS"
    and b: "buckets t ! table.index t = Some b"
    and st: "store_vector t b v = Inr (r, t')"
    and old: "slots_of_bucket (table.index t) b [0..<bucket.index b] = xs"
  shows "slots_of_table t' [0..<Suc (table.index t')] =
     slots_of_table t [0..<table.index t] @ xs
       @ [(table.index t, bucket.index b,
           take (nat (dims t)) v @ replicate (nat (dims_aligned t - dims t)) 0)]"
proof -
  let ?I = "table.index t" and ?h = "bucket.index b"
  let ?q = "take (nat (dims t)) v @ replicate (nat (dims_aligned t - dims t)) 0"
  let ?b' = "b\<lparr>svec := (svec b)[?h := Some ?q], bucket.index := ?h + 1\<rparr>"
  from store_vector_Inr[OF st] have lt: "?h < length (svec b)"
    and t': "t' = t\<lparr>buckets := (buckets t)[?I := Some ?b']\<rparr>" by simp_all
  have I': "table.index t' = ?I" and bI: "buckets t' ! ?I = Some ?b'"
    using L by (simp_all add: t')
  have 1: "slots_of_table t' [0..<?I] = slots_of_table t [0..<?I]"
    by (rule slots_of_table_cong) (simp add: t' nth_list_update)
  have 2: "slots_of_bucket ?I ?b' [0..<?h] = slots_of_bucket ?I b [0..<?h]"
    by (rule slots_of_bucket_cong) (simp add: nth_list_update)
  have 3: "slots_of_bucket ?I ?b' [0..<bucket.index ?b'] = xs @ [(?I, ?h, ?q)]"
    using lt old 2 by (simp add: slots_of_bucket_snoc)
  have "slots_of_table t' [0..<Suc ?I] = slots_of_table t' ([0..<?I] @ [?I])" by simp
  also have "\<dots> = slots_of_table t [0..<?I] @ xs @ [(?I, ?h, ?q)]"
    unfolding slots_of_table_snoc 1 using bI 3 by simp
  finally show ?thesis by (simp add: I')
qed


lemma live_slots_insert:
  fixes t :: "('a::zero, 's) table"
  assumes inv: "table_inv t k" and ins: "insert_vector mem t v = Inr (r, t')" and r: "r \<noteq> - 1"
  shows "\<exists>i j. r = slot_id i j \<and> live_slots t' = live_slots t
            @ [(i, j, take (nat (dims t)) v @ replicate (nat (dims_aligned t - dims t)) 0)]"
proof -
  from inv obtain b where b: "buckets t ! table.index t = Some b" by (rule table_inv_cur)
  have L: "length (buckets t) = MAX_BUCKETS" "table.index t < MAX_BUCKETS"
    using inv by (simp_all add: table_inv_def)
  have live: "live_slots t = slots_of_table t [0..<table.index t]
      @ slots_of_bucket (table.index t) b [0..<bucket.index b]"
    unfolding live_slots_eq using b by (simp add: slots_of_table_snoc)
  from insert_vector_cases[OF ins b] r
  consider (cur) "store_vector t b v = Inr (r, t')"
    | (new) b_new where "table.index t + 1 < MAX_BUCKETS"
        "alloc_bucket mem (dims_aligned t) = Inr (Some b_new)"
        "store_vector (t\<lparr>table.index := table.index t + 1,
            buckets := (buckets t)[table.index t + 1 := Some b_new]\<rparr>) b_new v = Inr (r, t')"
    by blast
  then show ?thesis
  proof cases
    case cur
    from live_slots_store[OF L b cur refl] store_vector_Inr[OF cur] live
    show ?thesis unfolding live_slots_eq[of t'] by auto
  next
    case new
    let ?t1 = "t\<lparr>table.index := table.index t + 1,
            buckets := (buckets t)[table.index t + 1 := Some b_new]\<rparr>"
    have bn: "bucket.index b_new = 0" using alloc_bucket_Some[OF new(2)] by simp
    have L1: "length (buckets ?t1) = MAX_BUCKETS" "table.index ?t1 < MAX_BUCKETS"
      using L new(1) by simp_all
    have b1: "buckets ?t1 ! table.index ?t1 = Some b_new" using L new(1) by simp
    have e: "slots_of_bucket (table.index ?t1) b_new [0..<bucket.index b_new] = []"
      by (simp add: bn slots_of_bucket_def)
    have same: "slots_of_table ?t1 [0..<Suc (table.index t)] = slots_of_table t [0..<Suc (table.index t)]"
      by (rule slots_of_table_cong) (auto simp: nth_list_update)
    from live_slots_store[OF L1 b1 new(3) e] store_vector_Inr[OF new(3)] same
    show ?thesis unfolding live_slots_eq[of t'] live_slots_eq[of t] by (auto simp: bn)
  qed
qed

lemma search_better_match_fold:
  "search_better_match t q =
     fold (top1_step (is_better_match t) (\<lambda>v. compare_vectors t v q (dims_aligned t)))
       (live_slots t) \<lparr>mid = - 1, distance = worst_match_value t\<rparr>"
proof -
  have "(\<lambda>(i, j, v) result.
          let tmp = compare_vectors t v q (dims_aligned t)
          in if is_better_match t tmp (distance result)
             then \<lparr>mid = slot_id i j, distance = tmp\<rparr>
             else result)
      = top1_step (is_better_match t) (\<lambda>v. compare_vectors t v q (dims_aligned t))"
    by (auto simp: fun_eq_iff top1_step_def Let_def)
  then show ?thesis
    unfolding search_better_match_def scan_table_live by simp
qed

lemma fold_top1_result:
  "fold (top1_step better score) xs acc = acc
     \<or> (\<exists>(i, j, v)\<in>set xs. fold (top1_step better score) xs acc = \<lparr>mid = slot_id i j, distance = score v\<rparr>)"
proof (induction xs arbitrary: acc)
  case Nil
  then show ?case by simp
next
  case (Cons x xs)
  obtain i j v where x: "x = (i, j, v)" by (cases x)
  from Cons.IH[of "top1_step better score x acc"]
  show ?case by (auto simp: x top1_step_def split: if_splits)
qed

lemma euclidean_self: "euclidean_distance q q n = Finite 0"
  by (simp add: euclidean_distance_def)

lemma sum_squares_nth:
  "length q = n \<Longrightarrow> (\<Sum>i\<leftarrow>[0..<n]. (q ! i)\<^sup>2) = (\<Sum>x\<leftarrow>q. x\<^sup>2)" for q :: "real list"
proof -
  assume "length q = n"
  then have "map (\<lambda>i. (q ! i)\<^sup>2) [0..<n] = map (\<lambda>x. x\<^sup>2) (map (\<lambda>i. q ! i) [0..<length q])" by simp
  also have "\<dots> = map (\<lambda>x. x\<^sup>2) q" by (simp only: map_nth)
  finally show ?thesis by simp
qed

lemma sum_squares_pos:
  fixes q :: "real list"
  assumes "\<exists>x\<in>set q. x \<noteq> 0"
  shows "0 < (\<Sum>x\<leftarrow>q. x\<^sup>2)"
proof -
  have nn: "0 \<le> (\<Sum>x\<leftarrow>q. x\<^sup>2)" by (rule sum_list_nonneg) auto
  have "(\<Sum>x\<leftarrow>q. x\<^sup>2) \<noteq> 0"
  proof
    assume "(\<Sum>x\<leftarrow>q. x\<^sup>2) = 0"
    then have "\<forall>y\<in>set (map (\<lambda>x. x\<^sup>2) q). y = 0"
      by (subst (asm) sum_list_nonneg_eq_0_iff) auto
    with assms show False by auto
  qed
  with nn show ?thesis by simp
qed

lemma cosine_self:
  assumes "length q = nat n" "\<exists>x\<in>set q. x \<noteq> 0"
  shows "cosine_similarity q q n = Finite 1"
proof -
  let ?S = "\<Sum>i\<leftarrow>[0..<nat n]. (q ! i)\<^sup>2"
  have S: "0 < ?S" using sum_squares_pos[OF assms(2)] sum_squares_nth[OF assms(1)] by simp
  have dot: "(\<Sum>i\<leftarrow>[0..<nat n]. q ! i * q ! i) = ?S" by (simp add: power2_eq_square)
  have "sqrt ?S \<noteq> 0" using S by simp
  moreover have "?S / (sqrt ?S * sqrt ?S) = 1" using S by simp
  ultimately show ?thesis
    unfolding cosine_similarity_def dot Let_def by simp
qed

lemma store_vector_dims:
  assumes "store_vector t b v = Inr (r, t')"
  shows "0 \<le> dims t" "nat (dims t) \<le> length v"
  using assms by (auto simp: store_vector_def Let_def split: if_splits option.splits)

lemma insert_vector_dims:
  fixes t :: "('a::zero, 's) table"
  assumes inv: "table_inv t k" and ins: "insert_vector mem t v = Inr (r, t')" and r: "r \<noteq> - 1"
  shows "0 \<le> dims t" "nat (dims t) \<le> length v"
proof -
  from inv obtain b where b: "buckets t ! table.index t = Some b" by (rule table_inv_cur)
  from insert_vector_cases[OF ins b] r
  consider (cur) "store_vector t b v = Inr (r, t')"
    | (new) b_new where
        "store_vector (t\<lparr>table.index := table.index t + 1,
            buckets := (buckets t)[table.index t + 1 := Some b_new]\<rparr>) b_new v = Inr (r, t')"
    by blast
  then have "0 \<le> dims t \<and> nat (dims t) \<le> length v"
  proof cases
    case cur
    from store_vector_dims[OF cur] show ?thesis by simp
  next
    case new
    from store_vector_dims[OF new] show ?thesis by simp
  qed
  then show "0 \<le> dims t" "nat (dims t) \<le> length v" by simp_all
qed

lemma table_conf_same:
  "table_conf t0 \<Longrightarrow> same_conf t0 t \<Longrightarrow> table_conf t"
  by (simp add: table_conf_def same_conf_def)

lemma ALIGN_DIMS_ge: "d \<le> ALIGN_DIMS d"
  unfolding ALIGN_DIMS_div by presburger

text \<open>
  Claim C2, as amended. On a table reached from \<open>victor_table\<close>, let a non-zero vector
  \<open>v\<close> be inserted with identifier \<open>r\<close>, and let \<open>q\<close> be \<open>v\<close> as it is stored (its first
  \<open>D\<close> floats, zero-padded to \<open>D'\<close>). If the score of \<open>q\<close> against itself is strictly better
  than the score against \<open>q\<close> of every vector that was live before the insert, the search
  for \<open>q\<close> right after returns \<open>(r, 0)\<close> under L2 and \<open>(r, 1)\<close> under cosine, in the exact
  arithmetic of the modelled kernels; in particular the score is within \<open>1e-5\<close> of 0 and
  of 1.
\<close>

theorem insert_then_search:
  assumes "victor_table table_ok mem0 d mode = Inr (Some t0)" and "run t0 0 ops = Inr (t, k)"
    and "insert_vector mem t v = Inr (r, t')" and "r \<noteq> - 1"
    and "q = take (nat d) v @ replicate (nat (ALIGN_DIMS d - d)) 0"
    and "\<exists>x\<in>set q. x \<noteq> 0"
    and "\<forall>(i, j, u)\<in>set (live_slots t).
           is_better_match t (compare_vectors t q q (dims_aligned t))
             (compare_vectors t u q (dims_aligned t))"
  shows "search_better_match t' q
           = \<lparr>mid = r, distance = (if mode = L2NORM then Finite 0 else Finite 1)\<rparr>
       \<and> (\<exists>s. distance (search_better_match t' q) = Finite s
             \<and> \<bar>s - (if mode = L2NORM then 0 else 1)\<bar> \<le> 1 / 10 ^ 5)"
proof -
  note V = victor_table_inv[OF assms(1)]
  note R = reach_inv[OF assms(1,2)]
  have conf: "table_conf t" using V(2) R(2) by (rule table_conf_same)
  have dm: "dims t = d" "cmpmode t = mode" using R(2) V(4,5) by (simp_all add: same_conf_def)
  have da: "dims_aligned t = ALIGN_DIMS d" using conf dm by (simp add: table_conf_def)
  note D = insert_vector_dims[OF R(1) assms(3,4)]
  have len: "length q = nat (dims_aligned t)"
    using D dm da ALIGN_DIMS_ge[of d] by (simp add: assms(5))
  define s where "s = compare_vectors t q q (dims_aligned t)"
  have s: "s = (if mode = L2NORM then Finite 0 else Finite 1)"
    using conf dm cosine_self[OF len assms(6)] by (simp add: s_def table_conf_def euclidean_self)
  have worst: "is_better_match t s (worst_match_value t)"
    using conf dm
    by (auto simp: s table_conf_def euclidean_distance_best_def cosine_similarity_best_def)
  from live_slots_insert[OF R(1) assms(3,4)] dm da assms(5)
  obtain i j where r: "r = slot_id i j" and live: "live_slots t' = live_slots t @ [(i, j, q)]"
    by auto
  note sc = insert_vector_conf[OF assms(3)]
  let ?step = "top1_step (is_better_match t) (\<lambda>v. compare_vectors t v q (dims_aligned t))"
  let ?init = "\<lparr>mid = - 1, distance = worst_match_value t\<rparr>"
  have "search_better_match t' q = fold ?step (live_slots t') ?init"
    unfolding search_better_match_fold using sc by (simp add: same_conf_def)
  also have "\<dots> = ?step (i, j, q) (search_better_match t q)"
    unfolding live search_better_match_fold by simp
  finally have eq: "search_better_match t' q = ?step (i, j, q) (search_better_match t q)" .
  have "is_better_match t s (distance (search_better_match t q))"
    using fold_top1_result[of "is_better_match t" "\<lambda>v. compare_vectors t v q (dims_aligned t)"
        "live_slots t" ?init] worst assms(7)
    unfolding search_better_match_fold[symmetric] s_def by auto
  then have "search_better_match t' q = \<lparr>mid = r, distance = s\<rparr>"
    unfolding eq by (simp add: top1_step_def s_def r)
  then show ?thesis by (simp add: s)
qed

lemma one4_val:
  "one4 = \<lparr>dims = 4, dims_aligned = 4, svec_size = 65536, cmpmode = 1,
             worst_match_value = Infinity, table.index = 0,
             is_better_match = euclidean_distance_best,
             compare_vectors = euclidean_distance,
             buckets = (replicate 128 None)
               [0 := Some \<lparr>bucket.index = 1,
                    svec = (replicate 65536 (Some (replicate 4 0)))[0 := Some [2, 0, 0, 0]]\<rparr>]\<rparr>"
  by (simp add: one4_def after_def fresh4_def ex_defs)

lemma dup4_val:
  "dup4 = \<lparr>dims = 4, dims_aligned = 4, svec_size = 65536, cmpmode = 1,
             worst_match_value = Infinity, table.index = 0,
             is_better_match = euclidean_distance_best,
             compare_vectors = euclidean_distance,
             buckets = (replicate 128 None)
               [0 := Some \<lparr>bucket.index = 2,
                    svec = (replicate 65536 (Some (replicate 4 0)))
                           [0 := Some [1, 0, 0, 0], 1 := Some [1, 0, 0, 0]]\<rparr>]\<rparr>"
  by (simp add: dup4_def after_def fresh4_def ex_defs numeral_2_eq_2)

lemma search_dup4: "search_better_match dup4 [1, 0, 0, 0] = \<lparr>mid = 0, distance = Finite 0\<rparr>"
  unfolding dup4_val
  by (simp add: search_better_match_def scan_table_def scan_bucket_def Let_def
      euclidean_distance_4 euclidean_distance_best_def slot_id_def encode_vector_id_def numeral_2_eq_2)

text \<open>
  Claim C2 as stated fails when the table already holds an equal vector: after two
  inserts of \<open>[1,0,0,0]\<close> the second has identifier 1, and the search returns identifier 0,
  the earlier of the two slots at distance 0.
\<close>

theorem insert_then_search_counterexample:
  "insert_vector all_ok (after fresh4 [Insert all_ok [1, 0, 0, 0]]) [1, 0, 0, 0] = Inr (1, dup4)
   \<and> search_better_match dup4 [1, 0, 0, 0] = \<lparr>mid = 0, distance = Finite 0\<rparr>
   \<and> mid (search_better_match dup4 [1, 0, 0, 0]) \<noteq> 1"
  using search_dup4 by (simp add: dup4_def after_def fresh4_def ex_defs)

lemma run_one4': "run fresh4 0 [Insert all_ok [2, 0, 0, 0]] = Inr (one4, 1)"
  unfolding one4_def by (rule run_one4)

lemma insert_two4: "insert_vector all_ok one4 [1, 0, 0, 0] = Inr (1, two4)"
  unfolding one4_def two4_def by (rule insert_second4)

lemma live_slots_one4: "live_slots one4 = [(0, 0, [2, 0, 0, 0])]"
  unfolding one4_val by (simp add: live_slots_def scan_table_def scan_bucket_def)

theorem insert_then_search_witness:
  "victor_table True all_ok 4 L2NORM = Inr (Some fresh4)
   \<and> run fresh4 0 [Insert all_ok [2, 0, 0, 0]] = Inr (one4, 1)
   \<and> insert_vector all_ok one4 [1, 0, 0, 0] = Inr (1, two4) \<and> (1::int) \<noteq> - 1
   \<and> search_better_match two4 [1, 0, 0, 0] = \<lparr>mid = 1, distance = Finite 0\<rparr>"
proof -
  have h4: "(1::int) \<noteq> - 1" by simp
  have h5: "[1, 0, 0, 0] = take (nat 4) [1, 0, 0, 0] @ replicate (nat (ALIGN_DIMS 4 - 4)) (0::real)"
    by (simp add: ALIGN_DIMS_def)
  have h6: "\<exists>x\<in>set [1, 0, 0, 0 :: real]. x \<noteq> 0" by simp
  have h7: "\<forall>(i, j, u)\<in>set (live_slots one4).
           is_better_match one4 (compare_vectors one4 [1, 0, 0, 0] [1, 0, 0, 0] (dims_aligned one4))
             (compare_vectors one4 u [1, 0, 0, 0] (dims_aligned one4))"
    unfolding live_slots_one4
    by (simp add: one4_val euclidean_distance_4 euclidean_distance_best_def)
  from insert_then_search [OF fresh4_eq run_one4' insert_two4 h4 h5 h6 h7]
    fresh4_eq run_one4' insert_two4
  show ?thesis by (simp add: L2NORM_def)
qed

section \<open>Delete, then search\<close>


































end
